theory Spec2Isabelle
  imports Main "HOL-Library.Word"
begin

section \<open>Data model of package httpclient\<close>

text \<open>
  \<^verbatim>\<open>time.Duration\<close> is a signed 64-bit count of nanoseconds: arithmetic wraps, and
  comparisons are signed (\<open><s\<close>).
\<close>

type_synonym duration = "64 word"

definition Second :: duration where
  "Second = 1000000000"

text \<open>
  \<^verbatim>\<open>type BackoffStrategy int\<close> with \<^verbatim>\<open>ConstantBackoff = iota\<close> and
  \<^verbatim>\<open>ExponentialBackoff\<close>: an integer type, so other values exist and reach the
  \<^verbatim>\<open>default\<close> branch of \<^verbatim>\<open>getNextWait\<close>.
\<close>

type_synonym BackoffStrategy = int

definition ConstantBackoff :: BackoffStrategy where
  "ConstantBackoff = 0"

definition ExponentialBackoff :: BackoffStrategy where
  "ExponentialBackoff = 1"

text \<open>Error values: the ones the package and its collaborators produce.\<close>

datatype error =
    EOF
  | Canceled
  | DeadlineExceeded
  | ErrClosed
  | NetError nat

text \<open>
  The \<^verbatim>\<open>Client\<close> struct: the fields that \<^verbatim>\<open>Do\<close>, \<^verbatim>\<open>getNextWait\<close> and
  \<^verbatim>\<open>LimitedReader\<close> read. The embedded \<^verbatim>\<open>*http.Client\<close> appears as the transport of the
  environment below; \<^verbatim>\<open>WithTimeout\<close> and \<^verbatim>\<open>WithMaxIdleConns\<close> configure only that
  collaborator. \<^verbatim>\<open>retryMax\<close> is a Go \<^verbatim>\<open>int\<close>; the loop counter of \<^verbatim>\<open>Do\<close> never passes it
  (every path of iteration \<^verbatim>\<open>i == retryMax\<close> returns), so no increment overflows and
  \<open>int\<close> is exact. \<^verbatim>\<open>maxResponseSize\<close> is an \<^verbatim>\<open>int64\<close> that is only compared and
  decreased. A nil map reads like the empty map.
\<close>

record Client =
  retryMax :: int
  retryWaitMin :: duration
  retryWaitMax :: duration
  maxResponseSize :: int
  backoffStrategy :: "int \<rightharpoonup> BackoffStrategy"

subsection \<open>Response bodies\<close>

text \<open>
  An \<^verbatim>\<open>io.ReadCloser\<close> is an interface value: the methods of some implementation
  together with its state. \<open>read_fn k s\<close> is \<^verbatim>\<open>Read(p)\<close> with \<^verbatim>\<open>len(p) = k\<close>: the
  bytes written to \<^verbatim>\<open>p\<close> (their number is the returned \<^verbatim>\<open>n\<close>), the returned error
  and the new state.
\<close>

type_synonym byte = "8 word"

record 's Stream =
  read_fn :: "nat \<Rightarrow> 's \<Rightarrow> (byte list \<times> error option) \<times> 's"
  close_fn :: "'s \<Rightarrow> error option \<times> 's"
  st :: 's

text \<open>
  The two implementations of \<^verbatim>\<open>io.ReadCloser\<close> in play: a body handed over by the
  transport, and the package's \<^verbatim>\<open>limitedReadCloser{R: io.LimitReader(body, n), C: body}\<close>.
  Its fields \<^verbatim>\<open>R.R\<close> and \<^verbatim>\<open>C\<close> are the same object, so the model keeps that object once,
  beside the counter \<^verbatim>\<open>R.N\<close>.
\<close>

datatype 's ReadCloser =
    Underlying "'s Stream"
  | limitedReadCloser int "'s ReadCloser"

record 's Response =
  StatusCode :: int
  Body :: "'s ReadCloser"

text \<open>
  \<^verbatim>\<open>Read\<close>. For a \<^verbatim>\<open>limitedReadCloser\<close> it is \<^verbatim>\<open>l.R.Read(p)\<close>, and \<^verbatim>\<open>l.R\<close> is the
  standard library's \<^verbatim>\<open>io.LimitedReader\<close>:
  \<^verbatim>\<open>if l.N <= 0 { return 0, EOF }; if int64(len(p)) > l.N { p = p[0:l.N] };
  n, err = l.R.Read(p); l.N -= int64(n); return\<close>.
\<close>

fun Read :: "nat \<Rightarrow> 's ReadCloser \<Rightarrow> (byte list \<times> error option) \<times> 's ReadCloser" where
  "Read k (Underlying b) =
     (let (res, s') = read_fn b k (st b) in (res, Underlying (b\<lparr>st := s'\<rparr>)))"
| "Read k (limitedReadCloser n body) =
     (if n \<le> 0 then (([], Some EOF), limitedReadCloser n body)
      else
        let k' = (if int k > n then nat n else k);
            (res, body') = Read k' body
        in (res, limitedReadCloser (n - int (length (fst res))) body'))"

text \<open>\<^verbatim>\<open>Close\<close>: for a \<^verbatim>\<open>limitedReadCloser\<close> it is \<^verbatim>\<open>return l.C.Close()\<close>.\<close>

fun Close :: "'s ReadCloser \<Rightarrow> error option \<times> 's ReadCloser" where
  "Close (Underlying b) =
     (let (e, s') = close_fn b (st b) in (e, Underlying (b\<lparr>st := s'\<rparr>)))"
| "Close (limitedReadCloser n body) =
     (let (e, body') = Close body in (e, limitedReadCloser n body'))"

definition LimitedReader :: "Client \<Rightarrow> 's ReadCloser \<Rightarrow> 's ReadCloser" where
  "LimitedReader c body = limitedReadCloser (maxResponseSize c) body"

section \<open>Construction and options\<close>

definition defaultClient :: Client where
  "defaultClient =
     \<lparr> retryMax = 3,
       retryWaitMin = 1 * Second,
       retryWaitMax = 15 * Second,
       maxResponseSize = 1024 * 1024,
       backoffStrategy =
         [429 \<mapsto> ExponentialBackoff, 503 \<mapsto> ConstantBackoff,
          504 \<mapsto> ConstantBackoff, 502 \<mapsto> ConstantBackoff] \<rparr>"

type_synonym Option = "Client \<Rightarrow> Client"

definition New :: "Option list \<Rightarrow> Client" where
  "New opts = foldl (\<lambda>c opt. opt c) defaultClient opts"

definition WithRetryMax :: "int \<Rightarrow> Option" where
  "WithRetryMax mx c = c\<lparr>retryMax := mx\<rparr>"

definition WithRetryWaitMin :: "duration \<Rightarrow> Option" where
  "WithRetryWaitMin mn c = c\<lparr>retryWaitMin := mn\<rparr>"

definition WithRetryWaitMax :: "duration \<Rightarrow> Option" where
  "WithRetryWaitMax mx c = c\<lparr>retryWaitMax := mx\<rparr>"

definition WithMaxResponseSize :: "int \<Rightarrow> Option" where
  "WithMaxResponseSize maxBytes c = c\<lparr>maxResponseSize := maxBytes\<rparr>"

definition WithBackoffStrategy :: "int \<Rightarrow> BackoffStrategy \<Rightarrow> Option" where
  "WithBackoffStrategy statusCode strategy c =
     c\<lparr>backoffStrategy := (backoffStrategy c)(statusCode \<mapsto> strategy)\<rparr>"

section \<open>The retry loop\<close>

definition shouldRetry :: "int \<Rightarrow> bool" where
  "shouldRetry statusCode =
     (if statusCode = 429 then True
      else if statusCode = 503 then True
      else if statusCode = 504 then True
      else if statusCode = 502 then True
      else False)"

definition getNextWait :: "Client \<Rightarrow> int \<Rightarrow> duration \<Rightarrow> duration" where
  "getNextWait c statusCode currentWait =
     (case backoffStrategy c statusCode of
        None \<Rightarrow> retryWaitMin c
      | Some strategy \<Rightarrow>
          if strategy = ExponentialBackoff then
            (let wait = currentWait * 2
             in if retryWaitMax c <s wait then retryWaitMax c else wait)
          else if strategy = ConstantBackoff then retryWaitMin c
          else retryWaitMin c)"

text \<open>
  What \<^verbatim>\<open>Do\<close> meets outside itself. \<open>transport env i\<close> is the result of
  \<^verbatim>\<open>c.Client.Do(req)\<close> in iteration \<open>i\<close>: an error and no response, or a response.
  \<open>ctxDone env i\<close> is the outcome of the \<^verbatim>\<open>select\<close> of iteration \<open>i\<close>:
  \<open>Some e\<close> when \<^verbatim>\<open><-req.Context().Done()\<close> is taken and \<^verbatim>\<open>req.Context().Err()\<close> is
  \<open>e\<close>, \<open>None\<close> when the timer \<^verbatim>\<open>time.After(wait)\<close> fires first.
\<close>

datatype 's outcome = Failed error | Responded "'s Response"

record 's env =
  transport :: "int \<Rightarrow> 's outcome"
  ctxDone :: "int \<Rightarrow> error option"

text \<open>
  What \<^verbatim>\<open>Do\<close> does to the outside, in order: a call of \<^verbatim>\<open>c.Client.Do\<close> in iteration
  \<open>i\<close>, \<^verbatim>\<open>resp.Body.Close()\<close> on the response of iteration \<open>i\<close>, and the
  \<^verbatim>\<open>select\<close> of iteration \<open>i\<close> with its timer set to the given duration.
\<close>

datatype event = Attempt int | BodyClose int | Wait int duration

type_synonym 's result = "('s Response option \<times> error option) \<times> event list"

definition emit :: "event list \<Rightarrow> 's result \<Rightarrow> 's result" where
  "emit evs r = (fst r, evs @ snd r)"

text \<open>
  The \<^verbatim>\<open>for\<close> loop of \<^verbatim>\<open>Do\<close>, with its variables \<^verbatim>\<open>i\<close>, \<^verbatim>\<open>wait\<close>, \<^verbatim>\<open>resp\<close> and
  \<^verbatim>\<open>err\<close> as arguments. The last branch is \<^verbatim>\<open>return resp, err\<close> after the loop.
  A failed attempt leaves \<^verbatim>\<open>resp\<close> nil, a retried response leaves it with its body
  closed. Each result comes with the events of the run.
\<close>

function Do_loop ::
  "Client \<Rightarrow> 's env \<Rightarrow> int \<Rightarrow> duration \<Rightarrow> 's Response option \<Rightarrow> error option \<Rightarrow> 's result"
where
  "Do_loop c env i wait resp err =
     (if i \<le> retryMax c then
        (case transport env i of
           Failed e \<Rightarrow>
             if i = retryMax c then ((None, Some e), [Attempt i])
             else
               (case ctxDone env i of
                  Some ce \<Rightarrow> ((None, Some ce), [Attempt i, Wait i wait])
                | None \<Rightarrow>
                    emit [Attempt i, Wait i wait]
                      (Do_loop c env (i + 1) (getNextWait c 0 wait) None (Some e)))
         | Responded r \<Rightarrow>
             if shouldRetry (StatusCode r) \<and> i < retryMax c then
               (case ctxDone env i of
                  Some ce \<Rightarrow> ((None, Some ce), [Attempt i, BodyClose i, Wait i wait])
                | None \<Rightarrow>
                    emit [Attempt i, BodyClose i, Wait i wait]
                      (Do_loop c env (i + 1) (getNextWait c (StatusCode r) wait)
                         (Some (r\<lparr>Body := snd (Close (Body r))\<rparr>)) None))
             else ((Some (r\<lparr>Body := LimitedReader c (Body r)\<rparr>), None), [Attempt i]))
      else ((resp, err), []))"
  by pat_completeness auto
termination
  by (relation "measure (\<lambda>(c, env, i, wait, resp, err). nat (retryMax c - i + 1))") auto

declare Do_loop.simps [simp del]

definition Do :: "Client \<Rightarrow> 's env \<Rightarrow> 's result" where
  "Do c env = Do_loop c env 0 (retryWaitMin c) None None"

section \<open>Observing a run\<close>

fun attempts_of :: "event list \<Rightarrow> int list" where
  "attempts_of [] = []"
| "attempts_of (Attempt i # es) = i # attempts_of es"
| "attempts_of (BodyClose i # es) = attempts_of es"
| "attempts_of (Wait i d # es) = attempts_of es"

fun waits_of :: "event list \<Rightarrow> duration list" where
  "waits_of [] = []"
| "waits_of (Attempt i # es) = waits_of es"
| "waits_of (BodyClose i # es) = waits_of es"
| "waits_of (Wait i d # es) = d # waits_of es"

fun iter_of :: "event \<Rightarrow> int" where
  "iter_of (Attempt i) = i"
| "iter_of (BodyClose i) = i"
| "iter_of (Wait i d) = i"

text \<open>The status code that iteration \<open>i\<close> hands to \<^verbatim>\<open>getNextWait\<close>.\<close>

definition trigger :: "'s env \<Rightarrow> int \<Rightarrow> int" where
  "trigger env i = (case transport env i of Failed e \<Rightarrow> 0 | Responded r \<Rightarrow> StatusCode r)"

text \<open>Iteration \<open>i\<close> reaches a \<^verbatim>\<open>select\<close>: attempts remain, and the attempt failed or
  its status code passes \<^verbatim>\<open>shouldRetry\<close>.\<close>

definition wants_retry :: "Client \<Rightarrow> 's env \<Rightarrow> int \<Rightarrow> bool" where
  "wants_retry c env i =
     (i < retryMax c \<and>
      (case transport env i of Failed e \<Rightarrow> True | Responded r \<Rightarrow> shouldRetry (StatusCode r)))"

text \<open>Iteration \<open>i\<close> reaches a \<^verbatim>\<open>select\<close> and the timer wins it.\<close>

definition retried :: "Client \<Rightarrow> 's env \<Rightarrow> int \<Rightarrow> bool" where
  "retried c env i = (wants_retry c env i \<and> ctxDone env i = None)"

definition failure_of :: "'s outcome \<Rightarrow> error option" where
  "failure_of out = (case out of Failed e \<Rightarrow> Some e | Responded r \<Rightarrow> None)"

definition iter_events :: "'s env \<Rightarrow> int \<Rightarrow> duration \<Rightarrow> event list" where
  "iter_events env i w =
     (case transport env i of
        Failed e \<Rightarrow> [Attempt i, Wait i w]
      | Responded r \<Rightarrow> [Attempt i, BodyClose i, Wait i w])"

text \<open>The events of \<open>n\<close> retried iterations from \<open>i\<close> on, and the wait after them.\<close>

fun prefix_events :: "Client \<Rightarrow> 's env \<Rightarrow> int \<Rightarrow> duration \<Rightarrow> nat \<Rightarrow> event list" where
  "prefix_events c env i w 0 = []"
| "prefix_events c env i w (Suc n) =
     iter_events env i w @ prefix_events c env (i + 1) (getNextWait c (trigger env i) w) n"

fun wait_after :: "Client \<Rightarrow> 's env \<Rightarrow> int \<Rightarrow> duration \<Rightarrow> nat \<Rightarrow> duration" where
  "wait_after c env i w 0 = w"
| "wait_after c env i w (Suc n) = wait_after c env (i + 1) (getNextWait c (trigger env i) w) n"

text \<open>
  A list of waits follows a recurrence: its first element is \<open>w\<close>, and each next one is
  \<open>nxt\<close> of the iteration before and of that iteration's wait.
\<close>

fun chain :: "(int \<Rightarrow> duration \<Rightarrow> duration) \<Rightarrow> int \<Rightarrow> duration \<Rightarrow> duration list \<Rightarrow> bool" where
  "chain nxt i w [] = True"
| "chain nxt i w (x # xs) = (x = w \<and> chain nxt (i + 1) (nxt i w) xs)"

subsection \<open>The recurrence of the specification\<close>

text \<open>The smaller of two durations.\<close>

definition dmin :: "duration \<Rightarrow> duration \<Rightarrow> duration" where
  "dmin a b = (if a \<le>s b then a else b)"

text \<open>
  The wait step as the specification words it: Exponential gives
  \<open>min(currentWait * 2, retryWaitMax)\<close>, Constant gives \<open>retryWaitMin\<close>, and so does a
  status code without a configured strategy.
\<close>

definition spec_next_wait :: "Client \<Rightarrow> int \<Rightarrow> duration \<Rightarrow> duration" where
  "spec_next_wait c statusCode currentWait =
     (if backoffStrategy c statusCode = Some ExponentialBackoff
      then dmin (currentWait * 2) (retryWaitMax c)
      else retryWaitMin c)"

section \<open>Reading and closing repeatedly\<close>

text \<open>A caller that reads with buffers of the given sizes, one after the other, and
  collects the bytes it gets.\<close>

fun ReadAll :: "nat list \<Rightarrow> 's ReadCloser \<Rightarrow> byte list \<times> 's ReadCloser" where
  "ReadAll [] rc = ([], rc)"
| "ReadAll (k # ks) rc =
     (let (res, rc') = Read k rc; (rest, rc'') = ReadAll ks rc'
      in (fst res @ rest, rc''))"

text \<open>A caller that calls \<^verbatim>\<open>Close\<close> the given number of times and collects the results.\<close>

fun CloseN :: "nat \<Rightarrow> 's ReadCloser \<Rightarrow> error option list \<times> 's ReadCloser" where
  "CloseN 0 rc = ([], rc)"
| "CloseN (Suc n) rc =
     (let (e, rc') = Close rc; (es, rc'') = CloseN n rc' in (e # es, rc''))"

text \<open>The state of the resource at the bottom of the wrappers.\<close>

fun inner_st :: "'s ReadCloser \<Rightarrow> 's" where
  "inner_st (Underlying b) = st b"
| "inner_st (limitedReadCloser n body) = inner_st body"

subsection \<open>A concrete resource\<close>

text \<open>
  A connection-like body: the bytes still to come, the error it reports once they are
  used up (\<open>EOF\<close> for a complete body), and how often it was closed. Like a file or a
  socket it reports \<open>ErrClosed\<close> to a second \<^verbatim>\<open>Close\<close> and to a \<^verbatim>\<open>Read\<close> after \<^verbatim>\<open>Close\<close>.
\<close>

record conn =
  pending :: "byte list"
  atEnd :: error
  closes :: nat

definition conn_read :: "nat \<Rightarrow> conn \<Rightarrow> (byte list \<times> error option) \<times> conn" where
  "conn_read k s =
     (if closes s > 0 then (([], Some ErrClosed), s)
      else if k = 0 then (([], None), s)
      else if pending s = [] then (([], Some (atEnd s)), s)
      else ((take k (pending s), None), s\<lparr>pending := drop k (pending s)\<rparr>))"

definition conn_close :: "conn \<Rightarrow> error option \<times> conn" where
  "conn_close s =
     ((if closes s > 0 then Some ErrClosed else None), s\<lparr>closes := closes s + 1\<rparr>)"

definition connStream :: "conn \<Rightarrow> conn Stream" where
  "connStream s = \<lparr> read_fn = conn_read, close_fn = conn_close, st = s \<rparr>"

definition connBody :: "byte list \<Rightarrow> error \<Rightarrow> conn ReadCloser" where
  "connBody bs e = Underlying (connStream \<lparr> pending = bs, atEnd = e, closes = 0 \<rparr>)"

subsection \<open>Concrete runs\<close>

definition respOf :: "int \<Rightarrow> conn Response" where
  "respOf sc = \<lparr> StatusCode = sc, Body = connBody [104, 105] EOF \<rparr>"

text \<open>Every attempt gets a response with the same status code; no cancellation.\<close>

definition env_always :: "int \<Rightarrow> conn env" where
  "env_always sc = \<lparr> transport = (\<lambda>i. Responded (respOf sc)), ctxDone = (\<lambda>i. None) \<rparr>"

text \<open>Every attempt fails, each with an error of its own; no cancellation.\<close>

definition env_failing :: "conn env" where
  "env_failing = \<lparr> transport = (\<lambda>i. Failed (NetError (nat i))), ctxDone = (\<lambda>i. None) \<rparr>"

text \<open>Iterations before \<open>n\<close> see outcome \<open>a\<close> and a timer that fires; from \<open>n\<close> on the
  outcome is \<open>b\<close> and the \<^verbatim>\<open>select\<close> ends as \<open>ce\<close> says.\<close>

definition env_switch :: "int \<Rightarrow> conn outcome \<Rightarrow> conn outcome \<Rightarrow> error option \<Rightarrow> conn env" where
  "env_switch n a b ce =
     \<lparr> transport = (\<lambda>i. if i < n then a else b),
       ctxDone = (\<lambda>i. if i < n then None else ce) \<rparr>"

text \<open>A body whose \<^verbatim>\<open>Read\<close> delivers bytes together with a connection reset.\<close>

definition resetBody :: "unit ReadCloser" where
  "resetBody =
     Underlying \<lparr> read_fn = (\<lambda>k s. ((take k [1, 2, 3], Some (NetError 104)), s)),
                  close_fn = (\<lambda>s. (None, s)), st = () \<rparr>"

text \<open>The wait durations of one call of \<^verbatim>\<open>Do\<close>, in order.\<close>

definition Do_waits :: "Client \<Rightarrow> 's env \<Rightarrow> duration list" where
  "Do_waits c env = waits_of (snd (Do c env))"

text \<open>A client that adds status 500 to the backoff map, as
  \<^verbatim>\<open>New(WithBackoffStrategy(500, ConstantBackoff))\<close> does.\<close>

definition client500 :: Client where
  "client500 = New [WithBackoffStrategy 500 ConstantBackoff]"

text \<open>A client with \<^verbatim>\<open>retryWaitMin = 1s\<close>, \<^verbatim>\<open>retryWaitMax = 10s\<close> and six retries.\<close>

definition exp_client :: Client where
  "exp_client = New [WithRetryWaitMax (10 * Second), WithRetryMax 6]"

text \<open>A \<^verbatim>\<open>limitedReadCloser\<close> with \<open>n\<close> bytes left over a connection in state \<open>s\<close>.\<close>

definition limitedConn :: "int \<Rightarrow> conn \<Rightarrow> conn ReadCloser" where
  "limitedConn n s = limitedReadCloser n (Underlying (connStream s))"

text \<open>The iterations of the \<^verbatim>\<open>select\<close> statements of one call of \<^verbatim>\<open>Do\<close>, in order.\<close>

fun wait_iters :: "event list \<Rightarrow> int list" where
  "wait_iters [] = []"
| "wait_iters (Attempt i # es) = wait_iters es"
| "wait_iters (BodyClose i # es) = wait_iters es"
| "wait_iters (Wait i d # es) = i # wait_iters es"

text \<open>A client with key 0 of the backoff map set to Exponential, as
  \<^verbatim>\<open>New(WithBackoffStrategy(0, ExponentialBackoff))\<close> does.\<close>

definition client0 :: Client where
  "client0 = New [WithBackoffStrategy 0 ExponentialBackoff]"

text \<open>Attempt 0 gets a 429, every later attempt fails; no cancellation.\<close>

definition env_429_then_failing :: "conn env" where
  "env_429_then_failing = env_switch 1 (Responded (respOf 429)) (Failed (NetError 1)) None"

subsection \<open>Streams that hold bytes\<close>

text \<open>
  What it means that an underlying stream holds the bytes \<open>data s\<close> in state \<open>s\<close> and
  has them available: a \<^verbatim>\<open>Read\<close> with a buffer of length \<open>k\<close> returns at most \<open>k\<close>
  bytes, they are the next bytes of the data, the rest of the data stays for later reads,
  and a non-empty buffer gets at least one byte while data is left. How many bytes a
  \<^verbatim>\<open>Read\<close> returns beyond that, and which error it returns with them, is up to the
  stream.
\<close>

definition serves :: "'s Stream \<Rightarrow> ('s \<Rightarrow> byte list) \<Rightarrow> bool" where
  "serves b data =
     (\<forall>k s. length (fst (fst (read_fn b k s))) \<le> k \<and>
            fst (fst (read_fn b k s)) = take (length (fst (fst (read_fn b k s)))) (data s) \<and>
            data (snd (read_fn b k s)) = drop (length (fst (fst (read_fn b k s)))) (data s) \<and>
            (0 < k \<and> data s \<noteq> [] \<longrightarrow> fst (fst (read_fn b k s)) \<noteq> []))"

text \<open>The number of non-empty buffers among those a caller reads with.\<close>

definition npos :: "nat list \<Rightarrow> nat" where
  "npos ks = length (filter (\<lambda>k. 0 < k) ks)"

text \<open>A stream that hands out one byte per \<^verbatim>\<open>Read\<close>, whatever the buffer.\<close>

definition trickle_read :: "nat \<Rightarrow> byte list \<Rightarrow> (byte list \<times> error option) \<times> byte list" where
  "trickle_read k s =
     (if s = [] then (([], Some EOF), s)
      else if k = 0 then (([], None), s)
      else (([hd s], None), tl s))"

definition trickle :: "byte list \<Rightarrow> byte list Stream" where
  "trickle bs = \<lparr> read_fn = trickle_read, close_fn = (\<lambda>s. (None, s)), st = bs \<rparr>"

text \<open>A \<^verbatim>\<open>limitedReadCloser\<close> with \<open>n\<close> bytes left over the stream \<open>b\<close>.\<close>

definition limited :: "nat \<Rightarrow> 's Stream \<Rightarrow> 's ReadCloser" where
  "limited n b = limitedReadCloser (int n) (Underlying b)"

section \<open>Properties of the retry loop\<close>

subsection \<open>One iteration\<close>

lemma emit_append: "emit xs (emit ys r) = emit (xs @ ys) r"
  by (simp add: emit_def)

lemma emit_Nil: "emit [] r = r"
  by (simp add: emit_def)

lemma fst_emit: "fst (emit xs r) = fst r"
  by (simp add: emit_def)

lemma snd_emit: "snd (emit xs r) = xs @ snd r"
  by (simp add: emit_def)

lemma Do_loop_vars:
  "i \<le> retryMax c \<Longrightarrow> Do_loop c env i w resp err = Do_loop c env i w resp' err'"
  by (subst Do_loop.simps, subst (2) Do_loop.simps) simp

lemma Do_loop_retried:
  assumes "retried c env i"
  shows "Do_loop c env i w resp err =
         emit (iter_events env i w)
           (Do_loop c env (i + 1) (getNextWait c (trigger env i) w) resp' err')"
proof -
  from assms have lt: "i < retryMax c" and nc: "ctxDone env i = None"
    by (simp_all add: retried_def wants_retry_def)
  have le: "i + 1 \<le> retryMax c" using lt by simp
  show ?thesis
  proof (cases "transport env i")
    case (Failed e)
    have "Do_loop c env i w resp err =
          emit [Attempt i, Wait i w] (Do_loop c env (i + 1) (getNextWait c 0 w) None (Some e))"
      using lt nc Failed by (subst Do_loop.simps) simp
    also have "Do_loop c env (i + 1) (getNextWait c 0 w) None (Some e) =
               Do_loop c env (i + 1) (getNextWait c 0 w) resp' err'"
      by (rule Do_loop_vars [OF le])
    finally show ?thesis using Failed by (simp add: iter_events_def trigger_def)
  next
    case (Responded r)
    with assms have sr: "shouldRetry (StatusCode r)"
      by (simp add: retried_def wants_retry_def)
    have "Do_loop c env i w resp err =
          emit [Attempt i, BodyClose i, Wait i w]
            (Do_loop c env (i + 1) (getNextWait c (StatusCode r) w)
               (Some (r\<lparr>Body := snd (Close (Body r))\<rparr>)) None)"
      using lt nc Responded sr by (subst Do_loop.simps) simp
    also have "Do_loop c env (i + 1) (getNextWait c (StatusCode r) w)
               (Some (r\<lparr>Body := snd (Close (Body r))\<rparr>)) None =
               Do_loop c env (i + 1) (getNextWait c (StatusCode r) w) resp' err'"
      by (rule Do_loop_vars [OF le])
    finally show ?thesis using Responded by (simp add: iter_events_def trigger_def)
  qed
qed

lemma Do_loop_prefix:
  "i + int n \<le> retryMax c \<Longrightarrow> (\<forall>j. i \<le> j \<and> j < i + int n \<longrightarrow> retried c env j) \<Longrightarrow>
   Do_loop c env i w resp err =
   emit (prefix_events c env i w n)
     (Do_loop c env (i + int n) (wait_after c env i w n) resp' err')"
proof (induction n arbitrary: i w resp err)
  case 0
  then show ?case by (simp add: emit_Nil Do_loop_vars [of i c env w resp err resp' err'])
next
  case (Suc n)
  have r: "retried c env i" using Suc.prems(2) by simp
  have le: "(i + 1) + int n \<le> retryMax c" using Suc.prems(1) by simp
  have all: "\<forall>j. i + 1 \<le> j \<and> j < (i + 1) + int n \<longrightarrow> retried c env j"
    using Suc.prems(2) by simp
  have "Do_loop c env i w resp err =
        emit (iter_events env i w)
          (Do_loop c env (i + 1) (getNextWait c (trigger env i) w) resp' err')"
    by (rule Do_loop_retried [OF r])
  also have "Do_loop c env (i + 1) (getNextWait c (trigger env i) w) resp' err' =
        emit (prefix_events c env (i + 1) (getNextWait c (trigger env i) w) n)
          (Do_loop c env ((i + 1) + int n)
             (wait_after c env (i + 1) (getNextWait c (trigger env i) w) n) resp' err')"
    by (rule Suc.IH [OF le all])
  finally show ?case by (simp add: emit_append ac_simps)
qed

lemma attempts_of_append: "attempts_of (xs @ ys) = attempts_of xs @ attempts_of ys"
  by (induction xs rule: attempts_of.induct) simp_all

lemma waits_of_append: "waits_of (xs @ ys) = waits_of xs @ waits_of ys"
  by (induction xs rule: waits_of.induct) simp_all

lemma attempts_of_iter_events: "attempts_of (iter_events env i w) = [i]"
  by (simp add: iter_events_def split: outcome.split)

lemma attempts_of_prefix_events:
  "attempts_of (prefix_events c env i w n) = [i..i + int n - 1]"
proof (induction n arbitrary: i w)
  case 0
  then show ?case by simp
next
  case (Suc n)
  have "[i..i + int (Suc n) - 1] = i # [i + 1..i + 1 + int n - 1]"
    by (subst upto_rec1) simp_all
  with Suc show ?case
    by (simp add: attempts_of_append attempts_of_iter_events)
qed

lemma Do_loop_last_failed:
  "i = retryMax c \<Longrightarrow> transport env i = Failed e \<Longrightarrow>
   Do_loop c env i w resp err = ((None, Some e), [Attempt i])"
  by (subst Do_loop.simps) simp

lemma Do_loop_exit:
  "retryMax c < i \<Longrightarrow> Do_loop c env i w resp err = ((resp, err), [])"
  by (subst Do_loop.simps) simp

lemma Do_loop_accept:
  assumes "i \<le> retryMax c" and "transport env i = Responded r"
    and "\<not> (shouldRetry (StatusCode r) \<and> i < retryMax c)"
  shows "Do_loop c env i w resp err =
         ((Some (r\<lparr>Body := LimitedReader c (Body r)\<rparr>), None), [Attempt i])"
proof -
  have "Do_loop c env i w resp err =
        (if shouldRetry (StatusCode r) \<and> i < retryMax c then
           (case ctxDone env i of
              Some ce \<Rightarrow> ((None, Some ce), [Attempt i, BodyClose i, Wait i w])
            | None \<Rightarrow>
                emit [Attempt i, BodyClose i, Wait i w]
                  (Do_loop c env (i + 1) (getNextWait c (StatusCode r) w)
                     (Some (r\<lparr>Body := snd (Close (Body r))\<rparr>)) None))
         else ((Some (r\<lparr>Body := LimitedReader c (Body r)\<rparr>), None), [Attempt i]))"
    using assms(1,2) by (subst Do_loop.simps) simp
  also have "\<dots> = ((Some (r\<lparr>Body := LimitedReader c (Body r)\<rparr>), None), [Attempt i])"
    using assms(3) by (simp only: if_False)
  finally show ?thesis .
qed

lemma Do_loop_cancel:
  assumes "wants_retry c env i" and "ctxDone env i = Some ce"
  shows "Do_loop c env i w resp err = ((None, Some ce), iter_events env i w)"
proof (cases "transport env i")
  case (Failed e)
  with assms show ?thesis
    by (subst Do_loop.simps) (simp add: wants_retry_def iter_events_def)
next
  case (Responded r)
  with assms show ?thesis
    by (subst Do_loop.simps) (simp add: wants_retry_def iter_events_def)
qed

lemma Do_loop_induct' [case_names exit retry cancel fail accept]:
  assumes exit: "\<And>i w resp err. retryMax c < i \<Longrightarrow> Q i w resp err"
    and retry: "\<And>i w resp err. retried c env i \<Longrightarrow>
          (\<And>resp' err'. Q (i + 1) (getNextWait c (trigger env i) w) resp' err') \<Longrightarrow>
          Q i w resp err"
    and cancel: "\<And>i w resp err ce. wants_retry c env i \<Longrightarrow> ctxDone env i = Some ce \<Longrightarrow>
          Q i w resp err"
    and fail: "\<And>i w resp err e. i = retryMax c \<Longrightarrow> transport env i = Failed e \<Longrightarrow>
          Q i w resp err"
    and accept: "\<And>i w resp err r. i \<le> retryMax c \<Longrightarrow> transport env i = Responded r \<Longrightarrow>
          \<not> (shouldRetry (StatusCode r) \<and> i < retryMax c) \<Longrightarrow> Q i w resp err"
  shows "Q i w resp err"
proof (induction "nat (retryMax c + 1 - i)" arbitrary: i w resp err)
  case 0
  then have "retryMax c < i" by simp
  then show ?case by (rule exit)
next
  case (Suc n)
  then have le: "i \<le> retryMax c" by simp
  have step: "Q (i + 1) w' resp' err'" for w' resp' err'
    by (rule Suc.hyps(1)) (use Suc.hyps(2) in simp)
  show ?case
  proof (cases "wants_retry c env i")
    case True
    show ?thesis
    proof (cases "ctxDone env i")
      case None
      with True have "retried c env i" by (simp add: retried_def)
      then show ?thesis by (rule retry) (rule step)
    next
      case (Some ce)
      with True show ?thesis by (rule cancel)
    qed
  next
    case False
    show ?thesis
    proof (cases "transport env i")
      case (Failed e)
      with False le have "i = retryMax c" by (simp add: wants_retry_def)
      then show ?thesis using Failed by (rule fail)
    next
      case (Responded r)
      with False have "\<not> (shouldRetry (StatusCode r) \<and> i < retryMax c)"
        by (auto simp: wants_retry_def)
      with le Responded show ?thesis by (rule accept)
    qed
  qed
qed

lemma Do_reach:
  assumes "0 \<le> k" and "k \<le> retryMax c" and "\<forall>j. 0 \<le> j \<and> j < k \<longrightarrow> retried c env j"
  shows "Do c env =
         emit (prefix_events c env 0 (retryWaitMin c) (nat k))
           (Do_loop c env k (wait_after c env 0 (retryWaitMin c) (nat k)) None None)"
proof -
  have 1: "0 + int (nat k) \<le> retryMax c" using assms by simp
  have 2: "\<forall>j. 0 \<le> j \<and> j < 0 + int (nat k) \<longrightarrow> retried c env j" using assms by simp
  show ?thesis
    unfolding Do_def using Do_loop_prefix [OF 1 2, of "retryWaitMin c" None None None None] assms(1)
    by simp
qed

lemma upto_snoc: "(0::int) \<le> k \<Longrightarrow> [0..k - 1] @ [k] = [0..k]"
  by (simp add: upto_rec2)

lemma attempts_reach:
  "0 \<le> k \<Longrightarrow> attempts_of (prefix_events c env 0 w (nat k)) @ [k] = [0..k]"
  by (simp add: attempts_of_prefix_events upto_snoc)

lemma iter_of_prefix_events:
  "e \<in> set (prefix_events c env i w n) \<Longrightarrow> i \<le> iter_of e \<and> iter_of e < i + int n"
proof (induction n arbitrary: i w)
  case 0
  then show ?case by simp
next
  case (Suc n)
  from Suc.prems have "e \<in> set (iter_events env i w) \<or>
      e \<in> set (prefix_events c env (i + 1) (getNextWait c (trigger env i) w) n)"
    by simp
  then show ?case
  proof
    assume "e \<in> set (iter_events env i w)"
    then have "iter_of e = i"
      by (auto simp: iter_events_def split: outcome.splits)
    then show ?thesis by simp
  next
    assume "e \<in> set (prefix_events c env (i + 1) (getNextWait c (trigger env i) w) n)"
    from Suc.IH [OF this] show ?thesis by simp
  qed
qed

lemma filter_prefix_events:
  "0 \<le> k \<Longrightarrow> filter (\<lambda>e. iter_of e = k) (prefix_events c env 0 w (nat k)) = []"
  by (auto simp: filter_empty_conv dest: iter_of_prefix_events)

lemma iter_of_iter_events: "e \<in> set (iter_events env i w) \<Longrightarrow> iter_of e = i"
  by (auto simp: iter_events_def split: outcome.splits)

lemma iter_of_Do_loop:
  "\<forall>e \<in> set (snd (Do_loop c env i w resp err)). i \<le> iter_of e"
proof (induction i w resp err rule: Do_loop_induct' [where c = c and env = env])
  case (exit i w resp err)
  then show ?case by (simp add: Do_loop_exit)
next
  case (retry i w resp err)
  have "\<forall>e \<in> set (snd (Do_loop c env (i + 1) (getNextWait c (trigger env i) w) resp err)).
          i \<le> iter_of e"
    using retry(2) [of resp err] by auto
  then show ?case
    by (subst Do_loop_retried [OF retry(1), of w resp err resp err])
       (auto simp: snd_emit dest: iter_of_iter_events)
next
  case (cancel i w resp err ce)
  then show ?case by (auto simp: Do_loop_cancel dest: iter_of_iter_events)
next
  case (fail i w resp err e)
  then show ?case by (simp add: Do_loop_last_failed)
next
  case (accept i w resp err r)
  then show ?case by (simp add: Do_loop_accept)
qed

lemma Do_loop_hd:
  "i \<le> retryMax c \<Longrightarrow> Attempt i \<in> set (snd (Do_loop c env i w resp err))"
  by (subst Do_loop.simps) (simp add: snd_emit split: outcome.split option.split)

lemma chain_append_iter:
  "chain nxt i w (waits_of (iter_events env i w) @ ws) = chain nxt (i + 1) (nxt i w) ws"
  by (simp add: iter_events_def split: outcome.split)

lemma Do_loop_chain:
  "chain (\<lambda>i. getNextWait c (trigger env i)) i w (waits_of (snd (Do_loop c env i w resp err)))"
proof (induction i w resp err rule: Do_loop_induct' [where c = c and env = env])
  case (exit i w resp err)
  then show ?case by (simp add: Do_loop_exit)
next
  case (retry i w resp err)
  show ?case
    by (subst Do_loop_retried [OF retry(1), of w resp err resp err])
       (simp add: snd_emit waits_of_append chain_append_iter retry(2))
next
  case (cancel i w resp err ce)
  then show ?case
    by (simp add: Do_loop_cancel iter_events_def split: outcome.split)
next
  case (fail i w resp err e)
  then show ?case by (simp add: Do_loop_last_failed)
next
  case (accept i w resp err r)
  then show ?case by (simp add: Do_loop_accept)
qed

lemma chain_nth:
  "chain nxt i w ws \<Longrightarrow> Suc j < length ws \<Longrightarrow> ws ! Suc j = nxt (i + int j) (ws ! j)"
proof (induction ws arbitrary: i w j)
  case Nil
  then show ?case by simp
next
  case (Cons x xs)
  show ?case
  proof (cases j)
    case 0
    with Cons.prems show ?thesis by (cases xs) simp_all
  next
    case (Suc j')
    from Cons.prems have c: "chain nxt (i + 1) (nxt i w) xs" by simp
    from Cons.prems Suc have l: "Suc j' < length xs" by simp
    have "xs ! Suc j' = nxt (i + 1 + int j') (xs ! j')"
      by (rule Cons.IH [OF c l])
    with Suc show ?thesis by (simp add: ac_simps)
  qed
qed

lemma chain_hd: "chain nxt i w ws \<Longrightarrow> ws \<noteq> [] \<Longrightarrow> ws ! 0 = w"
  by (cases ws) simp_all

subsection \<open>The sequence of waits\<close>

lemma waits_nth:
  assumes "Suc j < length (waits_of (snd (Do c env)))"
  shows "waits_of (snd (Do c env)) ! Suc j =
         getNextWait c (trigger env (int j)) (waits_of (snd (Do c env)) ! j)"
  using chain_nth [OF Do_loop_chain [of c env 0 "retryWaitMin c" None None], of j] assms
  by (simp add: Do_def)

lemma waits_hd:
  "waits_of (snd (Do c env)) \<noteq> [] \<Longrightarrow> waits_of (snd (Do c env)) ! 0 = retryWaitMin c"
  using chain_hd [OF Do_loop_chain [of c env 0 "retryWaitMin c" None None]]
  by (simp add: Do_def)

lemma getNextWait_spec: "getNextWait c sc w = spec_next_wait c sc w"
  by (auto simp: getNextWait_def spec_next_wait_def dmin_def Let_def word_sless_alt word_sle_eq
           split: option.split)

lemma Do_waits_Suc:
  "Suc j < length (Do_waits c env) \<Longrightarrow>
   Do_waits c env ! Suc j = getNextWait c (trigger env (int j)) (Do_waits c env ! j)"
  unfolding Do_waits_def by (rule waits_nth)

lemma Do_waits_0: "Do_waits c env \<noteq> [] \<Longrightarrow> Do_waits c env ! 0 = retryWaitMin c"
  unfolding Do_waits_def by (rule waits_hd)

lemma all_constant_waits:
  assumes "\<forall>i. backoffStrategy c (trigger env i) = Some ConstantBackoff"
  shows "j < length (Do_waits c env) \<Longrightarrow> Do_waits c env ! j = retryWaitMin c"
proof (cases j)
  case 0
  assume "j < length (Do_waits c env)"
  with 0 show ?thesis using Do_waits_0 [of c env] by auto
next
  case (Suc j')
  assume "j < length (Do_waits c env)"
  with Suc show ?thesis
    using Do_waits_Suc [of j' c env] assms
    by (simp add: getNextWait_spec spec_next_wait_def ConstantBackoff_def ExponentialBackoff_def)
qed

lemma all_exponential_waits:
  assumes mn: "retryWaitMin c = Second" and mx: "retryWaitMax c = 10 * Second"
    and ex: "\<forall>i. backoffStrategy c (trigger env i) = Some ExponentialBackoff"
  shows "j < length (Do_waits c env) \<Longrightarrow>
         Do_waits c env ! j =
           (if j < 4 then [Second, 2 * Second, 4 * Second, 8 * Second] ! j else 10 * Second)"
proof (induction j)
  case 0
  then show ?case using Do_waits_0 [of c env] mn by auto
next
  case (Suc j)
  then have prev: "Do_waits c env ! j =
      (if j < 4 then [Second, 2 * Second, 4 * Second, 8 * Second] ! j else 10 * Second)"
    by simp
  have step: "Do_waits c env ! Suc j = dmin (Do_waits c env ! j * 2) (10 * Second)"
    using Do_waits_Suc [OF Suc.prems] ex mx by (simp add: getNextWait_spec spec_next_wait_def)
  consider "j = 0" | "j = 1" | "j = 2" | "j = 3" | "4 \<le> j" by linarith
  then show ?case
  proof cases
    case 1 then show ?thesis using step prev by (simp add: dmin_def Second_def word_sle_eq)
  next
    case 2 then show ?thesis using step prev by (simp add: dmin_def Second_def word_sle_eq)
  next
    case 3 then show ?thesis using step prev by (simp add: dmin_def Second_def word_sle_eq)
  next
    case 4 then show ?thesis using step prev by (simp add: dmin_def Second_def word_sle_eq)
  next
    case 5 then show ?thesis using step prev by (simp add: dmin_def Second_def word_sle_eq)
  qed
qed

lemma Do_waits_exp_client:
  "Do_waits exp_client (env_always 429) =
     [Second, 2 * Second, 4 * Second, 8 * Second, 10 * Second, 10 * Second]"
  by (simp add: Do_waits_def exp_client_def Do_def Do_loop.simps emit_def env_always_def
      respOf_def shouldRetry_def getNextWait_def New_def defaultClient_def WithRetryWaitMax_def
      WithRetryMax_def Second_def ExponentialBackoff_def ConstantBackoff_def word_sless_alt)

lemma Do_waits_default_503:
  "Do_waits defaultClient (env_always 503) = [Second, Second, Second]"
  by (simp add: Do_waits_def Do_def Do_loop.simps emit_def env_always_def
      respOf_def shouldRetry_def getNextWait_def defaultClient_def 
      Second_def ExponentialBackoff_def ConstantBackoff_def word_sless_alt)

lemma sint_double:
  fixes w :: duration
  assumes "0 \<le> sint w" and "sint w < 2 ^ 62"
  shows "sint (w * 2) = 2 * sint w"
proof -
  have "sint (w * 2) = signed_take_bit 63 (sint w * 2)"
    by (simp add: sint_word_ariths)
  also have "\<dots> = sint w * 2"
    using assms by (intro signed_take_bit_int_eq_self) simp_all
  finally show ?thesis by simp
qed

lemma dmin_no_overflow:
  fixes w :: duration
  assumes "0 \<le> sint w" and "sint w < 2 ^ 62"
  shows "sint (dmin (w * 2) mx) = min (2 * sint w) (sint mx)"
  using sint_double [OF assms] by (simp add: dmin_def word_sle_eq min_def)


lemma shouldRetry_set: "shouldRetry sc \<longleftrightarrow> sc \<in> {429, 502, 503, 504}"
  by (auto simp: shouldRetry_def)

lemma wait_iters_append: "wait_iters (xs @ ys) = wait_iters xs @ wait_iters ys"
  by (induction xs rule: wait_iters.induct) simp_all

lemma wait_iters_iter_events: "wait_iters (iter_events env i w) = [i]"
  by (simp add: iter_events_def split: outcome.split)

lemma length_waits_iter_events: "length (waits_of (iter_events env i w)) = 1"
  by (simp add: iter_events_def split: outcome.split)

lemma map_from_Suc:
  "map (\<lambda>n. i + int n) [0..<Suc m] = i # map (\<lambda>n. i + 1 + int n) [0..<m]"
  by (simp add: map_upt_Suc add.assoc add.commute del: upt_Suc)

lemma Do_loop_wait_iters:
  "wait_iters (snd (Do_loop c env i w resp err)) =
   map (\<lambda>n. i + int n) [0..<length (waits_of (snd (Do_loop c env i w resp err)))]"
proof (induction i w resp err rule: Do_loop_induct' [where c = c and env = env])
  case (exit i w resp err)
  then show ?case by (simp add: Do_loop_exit)
next
  case (retry i w resp err)
  show ?case
    by (subst (1 2) Do_loop_retried [OF retry(1), of w resp err resp err])
       (simp add: snd_emit wait_iters_append waits_of_append wait_iters_iter_events
          length_waits_iter_events retry(2) map_from_Suc del: upt_Suc)
next
  case (cancel i w resp err ce)
  then show ?case
    by (simp add: Do_loop_cancel iter_events_def split: outcome.split)
next
  case (fail i w resp err e)
  then show ?case by (simp add: Do_loop_last_failed)
next
  case (accept i w resp err r)
  then show ?case by (simp add: Do_loop_accept)
qed

lemma Do_wait_iters:
  "wait_iters (snd (Do c env)) = map int [0..<length (Do_waits c env)]"
  using Do_loop_wait_iters [of c env 0 "retryWaitMin c" None None]
  by (simp add: Do_def Do_waits_def)

lemma all_failing_waits:
  assumes "backoffStrategy c 0 \<noteq> Some ExponentialBackoff"
    and "\<forall>i. failure_of (transport env i) \<noteq> None"
  shows "j < length (Do_waits c env) \<Longrightarrow> Do_waits c env ! j = retryWaitMin c"
proof (cases j)
  case 0
  assume "j < length (Do_waits c env)"
  with 0 show ?thesis using Do_waits_0 [of c env] by auto
next
  case (Suc j')
  assume lt: "j < length (Do_waits c env)"
  have "failure_of (transport env (int j')) \<noteq> None" using assms(2) by simp
  then have "trigger env (int j') = 0"
    by (cases "transport env (int j')") (simp_all add: failure_of_def trigger_def)
  with Suc lt show ?thesis
    using Do_waits_Suc [of j' c env] assms(1)
    by (simp add: getNextWait_spec spec_next_wait_def)
qed

lemma Do_waits_client0:
  "Do_waits client0 env_failing = [Second, 2 * Second, 4 * Second]"
  by (simp add: Do_waits_def client0_def Do_def Do_loop.simps emit_def env_failing_def New_def
      WithBackoffStrategy_def getNextWait_def defaultClient_def Second_def
      ExponentialBackoff_def ConstantBackoff_def word_sless_alt)

lemma Do_waits_default_failing:
  "Do_waits (New []) env_failing = [Second, Second, Second]"
  by (simp add: Do_waits_def Do_def Do_loop.simps emit_def env_failing_def New_def
      getNextWait_def defaultClient_def Second_def)

lemma Do_waits_default_mixed:
  "Do_waits (New []) env_429_then_failing = [Second, 2 * Second, Second]"
  by (simp add: Do_waits_def Do_def Do_loop.simps emit_def env_429_then_failing_def
      env_switch_def New_def respOf_def shouldRetry_def getNextWait_def defaultClient_def
      Second_def ExponentialBackoff_def ConstantBackoff_def word_sless_alt)

section \<open>Claims about \<^verbatim>\<open>Do\<close>\<close>

text \<open>
  Claim C2. For every \<open>retryMax = n \<ge> 0\<close>: if every attempt fails at the transport
  level (an error and no response), \<^verbatim>\<open>Do\<close> performs exactly \<open>n + 1\<close> attempts, numbered
  \<open>0\<close> to \<open>n\<close>, and returns a nil response with the error of the last attempt. The run
  meant is the one in which no backoff wait is cut short by the request's context (the
  timer wins every \<^verbatim>\<open>select\<close>); a cancelled wait is the subject of claim C5.
\<close>

theorem Do_transport_failures:
  assumes "0 \<le> retryMax c"
    and "\<forall>i. 0 \<le> i \<and> i \<le> retryMax c \<longrightarrow> failure_of (transport env i) \<noteq> None"
    and "\<forall>i. 0 \<le> i \<and> i < retryMax c \<longrightarrow> ctxDone env i = None"
  shows "fst (Do c env) = (None, failure_of (transport env (retryMax c))) \<and>
         attempts_of (snd (Do c env)) = [0..retryMax c] \<and>
         length (attempts_of (snd (Do c env))) = nat (retryMax c) + 1"
proof -
  have failed: "\<exists>e. transport env i = Failed e" if "0 \<le> i" "i \<le> retryMax c" for i
    using assms(2) that by (cases "transport env i") (auto simp: failure_of_def)
  have pre: "\<forall>j. 0 \<le> j \<and> j < retryMax c \<longrightarrow> retried c env j"
  proof (intro allI impI)
    fix j assume j: "0 \<le> j \<and> j < retryMax c"
    then obtain e where "transport env j = Failed e" using failed [of j] by auto
    with j assms(3) show "retried c env j" by (simp add: retried_def wants_retry_def)
  qed
  obtain e where e: "transport env (retryMax c) = Failed e"
    using failed [of "retryMax c"] assms(1) by auto
  have run: "Do c env =
      emit (prefix_events c env 0 (retryWaitMin c) (nat (retryMax c)))
        ((None, Some e), [Attempt (retryMax c)])"
    using Do_reach [OF assms(1) order_refl pre] Do_loop_last_failed [OF refl e] by simp
  have att: "attempts_of (snd (Do c env)) = [0..retryMax c]"
    using attempts_reach [OF assms(1), of c env "retryWaitMin c"]
    by (simp add: run snd_emit attempts_of_append)
  have "fst (Do c env) = (None, failure_of (transport env (retryMax c)))"
    by (simp add: run fst_emit e failure_of_def)
  moreover have "length [0..retryMax c] = nat (retryMax c) + 1"
    using assms(1) by (simp add: nat_add_distrib)
  ultimately show ?thesis using att by simp
qed

text \<open>The default client (\<open>retryMax = 3\<close>) against a transport whose attempt \<open>i\<close> fails
  with error number \<open>i\<close>: four attempts, and the error of attempt 3.\<close>

theorem Do_transport_failures_witness:
  "fst (Do defaultClient env_failing) = (None, Some (NetError 3)) \<and>
   attempts_of (snd (Do defaultClient env_failing)) = [0..3] \<and>
   length (attempts_of (snd (Do defaultClient env_failing))) = 4"
proof -
  have 1: "0 \<le> retryMax defaultClient" by (simp add: defaultClient_def)
  have 2: "\<forall>i. 0 \<le> i \<and> i \<le> retryMax defaultClient \<longrightarrow>
             failure_of (transport env_failing i) \<noteq> None"
    by (simp add: env_failing_def failure_of_def)
  have 3: "\<forall>i. 0 \<le> i \<and> i < retryMax defaultClient \<longrightarrow> ctxDone env_failing i = None"
    by (simp add: env_failing_def)
  show ?thesis
    using Do_transport_failures [OF 1 2 3]
    by (simp add: defaultClient_def env_failing_def failure_of_def)
qed

text \<open>
  Claim C3. When the last attempt (\<open>attempt = retryMax\<close>) receives a response, \<^verbatim>\<open>Do\<close>
  returns no error: it returns that response with its body wrapped in the size-limited
  reader and a nil error, without closing the body, whatever the status code is, so
  also for a retriable, mapped one such as 503. The earlier attempts are the retried
  ones that lead to the last attempt.
\<close>

theorem Do_final_attempt_response:
  assumes "0 \<le> retryMax c"
    and "\<forall>j. 0 \<le> j \<and> j < retryMax c \<longrightarrow> retried c env j"
    and "transport env (retryMax c) = Responded r"
  shows "fst (Do c env) =
           (Some (r\<lparr>Body := limitedReadCloser (maxResponseSize c) (Body r)\<rparr>), None) \<and>
         attempts_of (snd (Do c env)) = [0..retryMax c] \<and>
         BodyClose (retryMax c) \<notin> set (snd (Do c env))"
proof -
  have acc: "\<not> (shouldRetry (StatusCode r) \<and> retryMax c < retryMax c)" by simp
  have run: "Do c env =
      emit (prefix_events c env 0 (retryWaitMin c) (nat (retryMax c)))
        ((Some (r\<lparr>Body := limitedReadCloser (maxResponseSize c) (Body r)\<rparr>), None),
         [Attempt (retryMax c)])"
    using Do_reach [OF assms(1) order_refl assms(2)]
      Do_loop_accept [OF order_refl assms(3) acc]
    by (simp add: LimitedReader_def)
  have "fst (Do c env) =
           (Some (r\<lparr>Body := limitedReadCloser (maxResponseSize c) (Body r)\<rparr>), None)"
    by (simp add: run fst_emit)
  moreover have "attempts_of (snd (Do c env)) = [0..retryMax c]"
    using attempts_reach [OF assms(1), of c env "retryWaitMin c"]
    by (simp add: run snd_emit attempts_of_append)
  moreover have "BodyClose (retryMax c) \<notin> set (snd (Do c env))"
    using iter_of_prefix_events [of "BodyClose (retryMax c)" c env 0 "retryWaitMin c" "nat (retryMax c)"]
      assms(1)
    by (auto simp: run snd_emit)
  ultimately show ?thesis by simp
qed

text \<open>The default client against an upstream that answers 503 every time: after three
  retries the fourth 503 is returned as a response.\<close>

theorem Do_final_attempt_response_witness:
  "shouldRetry 503 \<and> backoffStrategy defaultClient 503 \<noteq> None \<and>
   fst (Do defaultClient (env_always 503)) =
     (Some \<lparr>StatusCode = 503,
            Body = limitedReadCloser (1024 * 1024) (connBody [104, 105] EOF)\<rparr>, None) \<and>
   attempts_of (snd (Do defaultClient (env_always 503))) = [0..3] \<and>
   BodyClose 3 \<notin> set (snd (Do defaultClient (env_always 503)))"
proof -
  have 1: "0 \<le> retryMax defaultClient" by (simp add: defaultClient_def)
  have 2: "\<forall>j. 0 \<le> j \<and> j < retryMax defaultClient \<longrightarrow>
             retried defaultClient (env_always 503) j"
    by (simp add: retried_def wants_retry_def env_always_def respOf_def shouldRetry_def)
  have 3: "transport (env_always 503) (retryMax defaultClient) = Responded (respOf 503)"
    by (simp add: env_always_def)
  show ?thesis
    using Do_final_attempt_response [OF 1 2 3]
    by (simp add: defaultClient_def respOf_def shouldRetry_def)
qed

text \<open>
  Claim C5. If the request's context is done while \<^verbatim>\<open>Do\<close> is in a backoff wait, after a
  transport error or after a response it wants to retry, \<^verbatim>\<open>Do\<close> returns the context's
  error with a nil response; the attempts made are those up to the interrupted
  iteration, and the wait is the last thing \<^verbatim>\<open>Do\<close> does.
\<close>

theorem Do_cancelled_during_wait:
  assumes "0 \<le> k"
    and "\<forall>j. 0 \<le> j \<and> j < k \<longrightarrow> retried c env j"
    and "wants_retry c env k"
    and "ctxDone env k = Some ce"
  shows "fst (Do c env) = (None, Some ce) \<and>
         attempts_of (snd (Do c env)) = [0..k] \<and>
         (\<exists>w. last (snd (Do c env)) = Wait k w)"
proof -
  have le: "k \<le> retryMax c" using assms(3) by (simp add: wants_retry_def)
  have run: "Do c env =
      emit (prefix_events c env 0 (retryWaitMin c) (nat k))
        ((None, Some ce), iter_events env k (wait_after c env 0 (retryWaitMin c) (nat k)))"
    using Do_reach [OF assms(1) le assms(2)] Do_loop_cancel [OF assms(3,4)] by simp
  have "fst (Do c env) = (None, Some ce)" by (simp add: run fst_emit)
  moreover have "attempts_of (snd (Do c env)) = [0..k]"
    using attempts_reach [OF assms(1), of c env "retryWaitMin c"]
    by (simp add: run snd_emit attempts_of_append attempts_of_iter_events)
  moreover have "\<exists>w. last (snd (Do c env)) = Wait k w"
    by (simp add: run snd_emit iter_events_def split: outcome.split)
  ultimately show ?thesis by simp
qed

text \<open>Attempt 0 fails and is retried, attempt 1 gets a 503, and the context is cancelled
  during the wait that follows.\<close>

theorem Do_cancelled_during_wait_witness:
  "fst (Do defaultClient
          (env_switch 1 (Failed (NetError 1)) (Responded (respOf 503)) (Some Canceled))) =
     (None, Some Canceled) \<and>
   attempts_of (snd (Do defaultClient
          (env_switch 1 (Failed (NetError 1)) (Responded (respOf 503)) (Some Canceled)))) =
     [0..1]"
proof -
  let ?env = "env_switch 1 (Failed (NetError 1)) (Responded (respOf 503)) (Some Canceled)"
  have 1: "(0::int) \<le> 1" by simp
  have 2: "\<forall>j. 0 \<le> j \<and> j < 1 \<longrightarrow> retried defaultClient ?env j"
    by (simp add: retried_def wants_retry_def env_switch_def defaultClient_def)
  have 3: "wants_retry defaultClient ?env 1"
    by (simp add: wants_retry_def env_switch_def defaultClient_def respOf_def shouldRetry_def)
  have 4: "ctxDone ?env 1 = Some Canceled" by (simp add: env_switch_def)
  show ?thesis using Do_cancelled_during_wait [OF 1 2 3 4] by simp
qed

text \<open>
  Claim C10. With a negative \<open>retryMax\<close>, as \<^verbatim>\<open>WithRetryMax(-1)\<close> sets it, the loop body
  never runs: \<^verbatim>\<open>Do\<close> issues no request and returns a nil response with a nil error.
\<close>

theorem Do_negative_retryMax:
  "(retryMax c < 0 \<longrightarrow> Do c env = ((None, None), [])) \<and>
   (m < 0 \<longrightarrow> Do (New (opts @ [WithRetryMax m])) env = ((None, None), []))"
proof -
  have "retryMax (New (opts @ [WithRetryMax m])) = m"
    by (simp add: New_def WithRetryMax_def)
  then show ?thesis by (simp add: Do_def Do_loop_exit)
qed

theorem Do_negative_retryMax_witness:
  "retryMax (New [WithRetryMax (- 1)]) < 0 \<and>
   Do (New [WithRetryMax (- 1)]) (env_always 200) = ((None, None), [])"
proof -
  have h: "retryMax (New [WithRetryMax (- 1)]) < 0"
    by (simp add: New_def WithRetryMax_def)
  show ?thesis
    using h Do_negative_retryMax [of "New [WithRetryMax (- 1)]" "env_always 200" "- 1" "[]"]
    by simp
qed

text \<open>
  Claim C1, as the specification states it: the decision to retry a response is governed
  by the \<^verbatim>\<open>backoffStrategy\<close> map alone, so a response whose status code is a key of the
  map is retried whenever attempts remain, codes added with \<^verbatim>\<open>WithBackoffStrategy\<close>
  included. The code decides with \<^verbatim>\<open>shouldRetry\<close>, a fixed \<^verbatim>\<open>switch\<close> over 429, 503,
  504 and 502 that never reads the map. With status 500 added to the map and three
  retries left, a 500 response is returned by the first attempt.
\<close>

theorem mapped_status_not_retried:
  "backoffStrategy client500 500 = Some ConstantBackoff \<and>
   0 < retryMax client500 \<and>
   Do client500 (env_always 500) =
     ((Some \<lparr>StatusCode = 500,
             Body = limitedReadCloser (1024 * 1024) (connBody [104, 105] EOF)\<rparr>, None),
      [Attempt 0])"
  by (simp add: client500_def New_def WithBackoffStrategy_def defaultClient_def Do_def
      Do_loop.simps env_always_def respOf_def shouldRetry_def LimitedReader_def)

text \<open>
  Claim C1, amended. The decision to retry a response is governed by \<^verbatim>\<open>shouldRetry\<close>
  alone, that is by membership of the status code in the fixed set 429, 502, 503, 504,
  whatever the map holds. At the attempt \<open>k\<close> that receives the response: a status code
  outside the set is accepted there (the response is returned with a wrapped body, and
  attempt \<open>k\<close> is the last event), and a status code in the set is retried whenever
  attempts remain (the body is closed, \<^verbatim>\<open>Do\<close> waits, and the next attempt follows
  unless the context ends the wait). The map only chooses how the next wait is computed.
\<close>

theorem retry_decided_by_shouldRetry:
  assumes "0 \<le> k" and "k \<le> retryMax c"
    and "\<forall>j. 0 \<le> j \<and> j < k \<longrightarrow> retried c env j"
    and "transport env k = Responded r"
  shows "(shouldRetry (StatusCode r) \<longleftrightarrow> StatusCode r \<in> {429, 502, 503, 504}) \<and>
         (\<not> shouldRetry (StatusCode r) \<longrightarrow>
            fst (Do c env) = (Some (r\<lparr>Body := LimitedReader c (Body r)\<rparr>), None) \<and>
            attempts_of (snd (Do c env)) = [0..k] \<and>
            filter (\<lambda>e. iter_of e = k) (snd (Do c env)) = [Attempt k]) \<and>
         (shouldRetry (StatusCode r) \<and> k < retryMax c \<longrightarrow>
            (\<exists>w. filter (\<lambda>e. iter_of e = k) (snd (Do c env)) =
                   [Attempt k, BodyClose k, Wait k w]) \<and>
            (ctxDone env k = None \<longrightarrow> Attempt (k + 1) \<in> set (snd (Do c env))))"
proof -
  let ?w = "wait_after c env 0 (retryWaitMin c) (nat k)"
  let ?pre = "prefix_events c env 0 (retryWaitMin c) (nat k)"
  have reach: "Do c env = emit ?pre (Do_loop c env k ?w None None)"
    by (rule Do_reach [OF assms(1,2,3)])
  have nopre: "filter (\<lambda>e. iter_of e = k) ?pre = []"
    by (rule filter_prefix_events [OF assms(1)])
  have A: "fst (Do c env) = (Some (r\<lparr>Body := LimitedReader c (Body r)\<rparr>), None) \<and>
           attempts_of (snd (Do c env)) = [0..k] \<and>
           filter (\<lambda>e. iter_of e = k) (snd (Do c env)) = [Attempt k]"
    if no: "\<not> shouldRetry (StatusCode r)"
  proof -
    have acc: "\<not> (shouldRetry (StatusCode r) \<and> k < retryMax c)" using no by simp
    have run: "Do c env =
        emit ?pre ((Some (r\<lparr>Body := LimitedReader c (Body r)\<rparr>), None), [Attempt k])"
      using reach Do_loop_accept [OF assms(2,4) acc] by simp
    show ?thesis
      using attempts_reach [OF assms(1), of c env "retryWaitMin c"] nopre
      by (simp add: run fst_emit snd_emit attempts_of_append)
  qed
  have B: "(\<exists>w. filter (\<lambda>e. iter_of e = k) (snd (Do c env)) =
                   [Attempt k, BodyClose k, Wait k w]) \<and>
           (ctxDone env k = None \<longrightarrow> Attempt (k + 1) \<in> set (snd (Do c env)))"
    if yes: "shouldRetry (StatusCode r)" and lt: "k < retryMax c"
  proof -
    have wr: "wants_retry c env k" using yes lt assms(4) by (simp add: wants_retry_def)
    have ev: "iter_events env k ?w = [Attempt k, BodyClose k, Wait k ?w]"
      using assms(4) by (simp add: iter_events_def)
    show ?thesis
    proof (cases "ctxDone env k")
      case (Some ce)
      have run: "Do c env = emit ?pre ((None, Some ce), iter_events env k ?w)"
        using reach Do_loop_cancel [OF wr Some] by simp
      show ?thesis using nopre Some by (simp add: run snd_emit ev)
    next
      case None
      let ?rest = "Do_loop c env (k + 1) (getNextWait c (trigger env k) ?w) None None"
      have rt: "retried c env k" using wr None by (simp add: retried_def)
      have run: "Do c env = emit ?pre (emit (iter_events env k ?w) ?rest)"
        using reach Do_loop_retried [OF rt, of ?w None None None None] by simp
      have later: "filter (\<lambda>e. iter_of e = k) (snd ?rest) = []"
        using iter_of_Do_loop [of c env "k + 1" "getNextWait c (trigger env k) ?w" None None]
        by (auto simp: filter_empty_conv)
      have nxt: "Attempt (k + 1) \<in> set (snd ?rest)"
        by (rule Do_loop_hd) (use lt in simp)
      show ?thesis using nopre later nxt by (simp add: run snd_emit ev)
    qed
  qed
  show ?thesis using A B shouldRetry_set by blast
qed

text \<open>The client with 500 in its map: a 503 on attempt 0 is retried, the 500 of attempt 1
  is returned at once.\<close>

theorem retry_decided_by_shouldRetry_witness:
  "backoffStrategy client500 500 \<noteq> None \<and> \<not> shouldRetry 500 \<and>
   fst (Do client500 (env_switch 1 (Responded (respOf 503)) (Responded (respOf 500)) None)) =
     (Some ((respOf 500)\<lparr>Body := LimitedReader client500 (Body (respOf 500))\<rparr>), None) \<and>
   attempts_of
     (snd (Do client500 (env_switch 1 (Responded (respOf 503)) (Responded (respOf 500)) None))) =
     [0..1] \<and>
   (\<exists>w. filter (\<lambda>e. iter_of e = 0)
          (snd (Do client500
                 (env_switch 1 (Responded (respOf 503)) (Responded (respOf 500)) None))) =
        [Attempt 0, BodyClose 0, Wait 0 w]) \<and>
   Attempt 1 \<in> set (snd (Do client500
                 (env_switch 1 (Responded (respOf 503)) (Responded (respOf 500)) None)))"
proof -
  let ?env = "env_switch 1 (Responded (respOf 503)) (Responded (respOf 500)) None"
  have rm: "retryMax client500 = 3"
    by (simp add: client500_def New_def WithBackoffStrategy_def defaultClient_def)
  have mp: "backoffStrategy client500 500 \<noteq> None"
    by (simp add: client500_def New_def WithBackoffStrategy_def defaultClient_def)
  have 1: "(0::int) \<le> 1" by simp
  have 2: "1 \<le> retryMax client500" by (simp add: rm)
  have 3: "\<forall>j. 0 \<le> j \<and> j < 1 \<longrightarrow> retried client500 ?env j"
    by (simp add: retried_def wants_retry_def env_switch_def rm respOf_def shouldRetry_def)
  have 4: "transport ?env 1 = Responded (respOf 500)" by (simp add: env_switch_def)
  have 00: "(0::int) \<le> 0" by simp
  have 02: "0 \<le> retryMax client500" by (simp add: rm)
  have 03: "\<forall>j. 0 \<le> j \<and> j < 0 \<longrightarrow> retried client500 ?env j" by auto
  have 04: "transport ?env 0 = Responded (respOf 503)" by (simp add: env_switch_def)
  have 05: "ctxDone ?env 0 = None" by (simp add: env_switch_def)
  show ?thesis
    using retry_decided_by_shouldRetry [OF 1 2 3 4]
      retry_decided_by_shouldRetry [OF 00 02 03 04] mp 05
    by (simp add: respOf_def shouldRetry_def rm)
qed

text \<open>
  Claim C4. Within one call of \<^verbatim>\<open>Do\<close> the waits follow the recurrence of the
  specification: the first wait is \<open>retryWaitMin\<close>; the wait after iteration \<open>j\<close> is
  computed from the strategy of the status code that caused the retry, \<open>retryWaitMin\<close>
  under Constant and \<open>min(currentWait * 2, retryWaitMax)\<close> under Exponential. So all
  waits are \<open>retryWaitMin\<close> when every code is Constant, and with \<open>retryWaitMin = 1s\<close>,
  \<open>retryWaitMax = 10s\<close> and Exponential codes the waits are 1s, 2s, 4s, 8s, 10s, 10s
  and so on. The product is Go's product of durations; for a wait from 0 to below
  \<open>2\<^sup>6\<^sup>2\<close> nanoseconds it is the exact double, and the result is the mathematical
  minimum.
\<close>

theorem waits_obey_recurrence:
  "(Do_waits c env \<noteq> [] \<longrightarrow> Do_waits c env ! 0 = retryWaitMin c) \<and>
   (\<forall>j. Suc j < length (Do_waits c env) \<longrightarrow>
      Do_waits c env ! Suc j = spec_next_wait c (trigger env (int j)) (Do_waits c env ! j)) \<and>
   (\<forall>j. Suc j < length (Do_waits c env) \<and>
        backoffStrategy c (trigger env (int j)) = Some ConstantBackoff \<longrightarrow>
      Do_waits c env ! Suc j = retryWaitMin c) \<and>
   (\<forall>j. Suc j < length (Do_waits c env) \<and>
        backoffStrategy c (trigger env (int j)) = Some ExponentialBackoff \<longrightarrow>
      Do_waits c env ! Suc j = dmin (Do_waits c env ! j * 2) (retryWaitMax c)) \<and>
   ((\<forall>i. backoffStrategy c (trigger env i) = Some ConstantBackoff) \<longrightarrow>
      (\<forall>j. j < length (Do_waits c env) \<longrightarrow> Do_waits c env ! j = retryWaitMin c)) \<and>
   (retryWaitMin c = Second \<and> retryWaitMax c = 10 * Second \<and>
    (\<forall>i. backoffStrategy c (trigger env i) = Some ExponentialBackoff) \<longrightarrow>
      (\<forall>j. j < length (Do_waits c env) \<longrightarrow>
         Do_waits c env ! j =
           (if j < 4 then [Second, 2 * Second, 4 * Second, 8 * Second] ! j else 10 * Second))) \<and>
   (backoffStrategy c sc = Some ExponentialBackoff \<and> 0 \<le> sint w \<and> sint w < 2 ^ 62 \<longrightarrow>
      sint (spec_next_wait c sc w) = min (2 * sint w) (sint (retryWaitMax c)))"
proof -
  have ovf: "sint (spec_next_wait c sc w) = min (2 * sint w) (sint (retryWaitMax c))"
    if "backoffStrategy c sc = Some ExponentialBackoff" "0 \<le> sint w" "sint w < 2 ^ 62"
    using that dmin_no_overflow [of w "retryWaitMax c"] by (simp add: spec_next_wait_def)
  have rec: "Do_waits c env ! Suc j = spec_next_wait c (trigger env (int j)) (Do_waits c env ! j)"
    if "Suc j < length (Do_waits c env)" for j
    using Do_waits_Suc [OF that] by (simp add: getNextWait_spec)
  have cst: "Do_waits c env ! Suc j = retryWaitMin c"
    if "Suc j < length (Do_waits c env)"
      "backoffStrategy c (trigger env (int j)) = Some ConstantBackoff" for j
    using rec [OF that(1)] that(2)
    by (simp add: spec_next_wait_def ConstantBackoff_def ExponentialBackoff_def)
  have exp: "Do_waits c env ! Suc j = dmin (Do_waits c env ! j * 2) (retryWaitMax c)"
    if "Suc j < length (Do_waits c env)"
      "backoffStrategy c (trigger env (int j)) = Some ExponentialBackoff" for j
    using rec [OF that(1)] that(2) by (simp add: spec_next_wait_def)
  show ?thesis
    using Do_waits_0 [of c env] rec cst exp all_constant_waits [of c env]
      all_exponential_waits [of c env] ovf
    by blast
qed

text \<open>Six 429 responses to the client with bounds 1s and 10s, and three 503 responses to
  the default client.\<close>

theorem waits_obey_recurrence_witness:
  "retryWaitMin exp_client = Second \<and> retryWaitMax exp_client = 10 * Second \<and>
   (\<forall>i. backoffStrategy exp_client (trigger (env_always 429) i) = Some ExponentialBackoff) \<and>
   Do_waits exp_client (env_always 429) =
     [Second, 2 * Second, 4 * Second, 8 * Second, 10 * Second, 10 * Second] \<and>
   Do_waits exp_client (env_always 429) ! 5 =
     dmin (Do_waits exp_client (env_always 429) ! 4 * 2) (10 * Second) \<and>
   (\<forall>i. backoffStrategy defaultClient (trigger (env_always 503) i) = Some ConstantBackoff) \<and>
   Do_waits defaultClient (env_always 503) = [Second, Second, Second] \<and>
   Do_waits defaultClient (env_always 503) ! 2 = retryWaitMin defaultClient \<and>
   sint (spec_next_wait exp_client 429 (8 * Second)) = 10000000000"
proof -
  have mn: "retryWaitMin exp_client = Second"
    by (simp add: exp_client_def New_def defaultClient_def WithRetryWaitMax_def WithRetryMax_def)
  have mx: "retryWaitMax exp_client = 10 * Second"
    by (simp add: exp_client_def New_def defaultClient_def WithRetryWaitMax_def WithRetryMax_def)
  have ex: "\<forall>i. backoffStrategy exp_client (trigger (env_always 429) i) = Some ExponentialBackoff"
    by (simp add: exp_client_def New_def defaultClient_def WithRetryWaitMax_def WithRetryMax_def
        trigger_def env_always_def respOf_def)
  have cs: "\<forall>i. backoffStrategy defaultClient (trigger (env_always 503) i) = Some ConstantBackoff"
    by (simp add: defaultClient_def trigger_def env_always_def respOf_def)
  have l1: "Suc 4 < length (Do_waits exp_client (env_always 429))"
    by (simp add: Do_waits_exp_client)
  have l2: "Suc 1 < length (Do_waits defaultClient (env_always 503))"
    by (simp add: Do_waits_default_503)
  have "Do_waits exp_client (env_always 429) ! Suc 4 =
        dmin (Do_waits exp_client (env_always 429) ! 4 * 2) (retryWaitMax exp_client)"
    using waits_obey_recurrence [of exp_client "env_always 429"] l1 ex by blast
  then have e5: "Do_waits exp_client (env_always 429) ! 5 =
            dmin (Do_waits exp_client (env_always 429) ! 4 * 2) (10 * Second)"
    by (simp add: mx eval_nat_numeral)
  have "Do_waits defaultClient (env_always 503) ! Suc 1 = retryWaitMin defaultClient"
    using waits_obey_recurrence [of defaultClient "env_always 503"] l2 cs by blast
  then have c2: "Do_waits defaultClient (env_always 503) ! 2 = retryWaitMin defaultClient"
    by (simp add: eval_nat_numeral)
  have st: "backoffStrategy exp_client 429 = Some ExponentialBackoff"
    by (simp add: exp_client_def New_def defaultClient_def WithRetryWaitMax_def WithRetryMax_def)
  have rg: "0 \<le> sint (8 * Second) \<and> sint (8 * Second) < 2 ^ 62"
    by (simp add: Second_def)
  have "sint (spec_next_wait exp_client 429 (8 * Second)) =
        min (2 * sint (8 * Second)) (sint (retryWaitMax exp_client))"
    using waits_obey_recurrence [of exp_client "env_always 429" 429 "8 * Second"] st rg
    by blast
  then have ov: "sint (spec_next_wait exp_client 429 (8 * Second)) = 10000000000"
    by (simp add: mx Second_def)
  show ?thesis
    using mn mx ex cs e5 c2 ov Do_waits_exp_client Do_waits_default_503 by simp
qed

text \<open>
  Claim C8, as the specification states it: after a transport failure the next wait comes
  from the lookup of key 0, which defaults to constant backoff, so that under the default
  configuration every wait following a transport error equals \<open>retryWaitMin\<close>. In
  \<^verbatim>\<open>Do\<close> the \<^verbatim>\<open>select\<close> that follows a failed attempt sleeps the current \<^verbatim>\<open>wait\<close>,
  and \<^verbatim>\<open>getNextWait(0, wait)\<close> is called only after it. With the default client, a 429
  on attempt 0 and a transport error on attempt 1, the wait that follows the transport
  error is 2s, not \<open>retryWaitMin = 1s\<close>; the wait after that one is 1s.
\<close>

theorem wait_after_failed_attempt:
  "backoffStrategy (New []) 0 = None \<and>
   retryWaitMin (New []) = Second \<and>
   transport env_429_then_failing 1 = Failed (NetError 1) \<and>
   snd (Do (New []) env_429_then_failing) =
     [Attempt 0, BodyClose 0, Wait 0 Second,
      Attempt 1, Wait 1 (2 * Second),
      Attempt 2, Wait 2 Second,
      Attempt 3] \<and>
   2 * Second \<noteq> Second"
  by (simp add: Do_def Do_loop.simps emit_def env_429_then_failing_def env_switch_def New_def
      respOf_def shouldRetry_def getNextWait_def defaultClient_def Second_def
      ExponentialBackoff_def ConstantBackoff_def word_sless_alt)

text \<open>
  Claim C8, amended. The wait of iteration \<open>j\<close> is the \<open>j\<close>-th wait of the call; the
  first is \<open>retryWaitMin\<close> and each later one is computed from the iteration before it
  alone, so the wait slept right after a failed attempt is the one the previous iteration
  left. The wait computed after a transport failure, slept in the next iteration, comes
  from key 0 of the backoff map: \<open>min(wait * 2, retryWaitMax)\<close> when key 0 is configured
  Exponential, and \<open>retryWaitMin\<close> when it is configured otherwise or not at all. The
  default configuration has no key 0, so there the wait computed after a transport
  error is \<open>retryWaitMin\<close>, and in a run whose attempts all fail every wait is
  \<open>retryWaitMin\<close>.
\<close>

theorem transport_error_next_wait:
  "wait_iters (snd (Do c env)) = map int [0..<length (Do_waits c env)] \<and>
   (Do_waits c env \<noteq> [] \<longrightarrow> Do_waits c env ! 0 = retryWaitMin c) \<and>
   (\<forall>j. Suc j < length (Do_waits c env) \<longrightarrow>
      Do_waits c env ! Suc j = spec_next_wait c (trigger env (int j)) (Do_waits c env ! j)) \<and>
   (\<forall>j. Suc j < length (Do_waits c env) \<and> failure_of (transport env (int j)) \<noteq> None \<and>
        backoffStrategy c 0 = Some ExponentialBackoff \<longrightarrow>
      Do_waits c env ! Suc j = dmin (Do_waits c env ! j * 2) (retryWaitMax c)) \<and>
   (\<forall>j. Suc j < length (Do_waits c env) \<and> failure_of (transport env (int j)) \<noteq> None \<and>
        backoffStrategy c 0 \<noteq> Some ExponentialBackoff \<longrightarrow>
      Do_waits c env ! Suc j = retryWaitMin c) \<and>
   backoffStrategy (New []) 0 = None \<and>
   (backoffStrategy c 0 \<noteq> Some ExponentialBackoff \<and>
    (\<forall>i. failure_of (transport env i) \<noteq> None) \<longrightarrow>
      (\<forall>j. j < length (Do_waits c env) \<longrightarrow> Do_waits c env ! j = retryWaitMin c))"
proof -
  have key: "trigger env (int j) = 0" if "failure_of (transport env (int j)) \<noteq> None" for j
    using that by (cases "transport env (int j)") (simp_all add: failure_of_def trigger_def)
  have rec: "Do_waits c env ! Suc j = spec_next_wait c (trigger env (int j)) (Do_waits c env ! j)"
    if "Suc j < length (Do_waits c env)" for j
    using Do_waits_Suc [OF that] by (simp add: getNextWait_spec)
  have ex: "Do_waits c env ! Suc j = dmin (Do_waits c env ! j * 2) (retryWaitMax c)"
    if "Suc j < length (Do_waits c env)" "failure_of (transport env (int j)) \<noteq> None"
      "backoffStrategy c 0 = Some ExponentialBackoff" for j
    using rec [OF that(1)] key [OF that(2)] that(3) by (simp add: spec_next_wait_def)
  have mn: "Do_waits c env ! Suc j = retryWaitMin c"
    if "Suc j < length (Do_waits c env)" "failure_of (transport env (int j)) \<noteq> None"
      "backoffStrategy c 0 \<noteq> Some ExponentialBackoff" for j
    using rec [OF that(1)] key [OF that(2)] that(3) by (simp add: spec_next_wait_def)
  have d: "backoffStrategy (New []) 0 = None"
    by (simp add: New_def defaultClient_def)
  show ?thesis
    using Do_wait_iters [of c env] Do_waits_0 [of c env] rec ex mn d all_failing_waits [of c env]
    by blast
qed

text \<open>All attempts failing with key 0 Exponential (1s, 2s, 4s) and with the default map
  (1s, 1s, 1s); and the default client with a 429 before the failures (1s, 2s, 1s).\<close>

theorem transport_error_next_wait_witness:
  "backoffStrategy client0 0 = Some ExponentialBackoff \<and>
   Do_waits client0 env_failing = [Second, 2 * Second, 4 * Second] \<and>
   Do_waits client0 env_failing ! 2 = dmin (Do_waits client0 env_failing ! 1 * 2) (15 * Second) \<and>
   backoffStrategy (New []) 0 = None \<and>
   Do_waits (New []) env_failing = [Second, Second, Second] \<and>
   Do_waits (New []) env_failing ! 1 = retryWaitMin (New []) \<and>
   Do_waits (New []) env_429_then_failing = [Second, 2 * Second, Second] \<and>
   Do_waits (New []) env_429_then_failing ! 2 = retryWaitMin (New []) \<and>
   wait_iters (snd (Do (New []) env_429_then_failing)) = [0, 1, 2]"
proof -
  have k0: "backoffStrategy client0 0 = Some ExponentialBackoff"
    by (simp add: client0_def New_def WithBackoffStrategy_def)
  have mx: "retryWaitMax client0 = 15 * Second"
    by (simp add: client0_def New_def WithBackoffStrategy_def defaultClient_def)
  have kd: "backoffStrategy (New []) 0 \<noteq> Some ExponentialBackoff"
    by (simp add: New_def defaultClient_def)
  have f: "\<forall>i. failure_of (transport env_failing i) \<noteq> None"
    by (simp add: env_failing_def failure_of_def)
  have f1: "failure_of (transport env_429_then_failing (int 1)) \<noteq> None"
    by (simp add: env_429_then_failing_def env_switch_def failure_of_def)
  have l0: "Suc 1 < length (Do_waits client0 env_failing)"
    by (simp add: Do_waits_client0)
  have lm: "Suc 1 < length (Do_waits (New []) env_429_then_failing)"
    by (simp add: Do_waits_default_mixed)
  have "Do_waits client0 env_failing ! Suc 1 =
        dmin (Do_waits client0 env_failing ! 1 * 2) (retryWaitMax client0)"
    using transport_error_next_wait [of client0 env_failing] l0 f k0 by blast
  then have a: "Do_waits client0 env_failing ! 2 =
        dmin (Do_waits client0 env_failing ! 1 * 2) (15 * Second)"
    by (simp add: mx eval_nat_numeral)
  have "\<forall>j. j < length (Do_waits (New []) env_failing) \<longrightarrow>
        Do_waits (New []) env_failing ! j = retryWaitMin (New [])"
    using transport_error_next_wait [of "New []" env_failing] kd f by blast
  moreover have "1 < length (Do_waits (New []) env_failing)"
    by (simp add: Do_waits_default_failing)
  ultimately have b: "Do_waits (New []) env_failing ! 1 = retryWaitMin (New [])"
    by blast
  have "Do_waits (New []) env_429_then_failing ! Suc 1 = retryWaitMin (New [])"
    using transport_error_next_wait [of "New []" env_429_then_failing] lm f1 kd by blast
  then have c: "Do_waits (New []) env_429_then_failing ! 2 = retryWaitMin (New [])"
    by (simp add: eval_nat_numeral)
  have "wait_iters (snd (Do (New []) env_429_then_failing)) =
        map int [0..<length (Do_waits (New []) env_429_then_failing)]"
    using transport_error_next_wait [of "New []" env_429_then_failing] by blast
  then have d: "wait_iters (snd (Do (New []) env_429_then_failing)) = [0, 1, 2]"
    by (simp add: Do_waits_default_mixed upt_rec)
  show ?thesis
    using k0 a b c d Do_waits_client0 Do_waits_default_failing Do_waits_default_mixed
      transport_error_next_wait [of "New []" env_failing]
    by simp
qed

section \<open>Properties of the size-limited body\<close>

lemma min_step:
  "(1::nat) \<le> j \<Longrightarrow> j \<le> n \<Longrightarrow> min (n - j) p \<le> l \<Longrightarrow> min n (Suc p) \<le> j + l"
  by (auto simp: min_def split: if_splits)

lemma min_step0:
  "(j::nat) \<le> n \<Longrightarrow> min (n - j) p \<le> l \<Longrightarrow> min n p \<le> j + l"
  by (auto simp: min_def split: if_splits)

lemma serves_st [simp]: "serves (b\<lparr>st := s\<rparr>) data = serves b data"
  by (simp add: serves_def)

lemma Read_limited:
  assumes sv: "serves b data" and lt: "n < length (data (st b))"
  obtains out e s' where
    "Read k (limited n b) = ((out, e), limited (n - length out) (b\<lparr>st := s'\<rparr>))"
    "length out \<le> n" "length out \<le> k"
    "out = take (length out) (data (st b))"
    "data s' = drop (length out) (data (st b))"
    "n = 0 \<Longrightarrow> e = Some EOF \<and> s' = st b"
    "0 < n \<Longrightarrow> 0 < k \<Longrightarrow> out \<noteq> []"
proof (cases "n = 0")
  case True
  have "Read k (limited n b) = (([], Some EOF), limited (n - length ([]::byte list)) (b\<lparr>st := st b\<rparr>))"
    using True by (simp add: limited_def)
  then show ?thesis using True by (intro that [of "[]" "Some EOF" "st b"]) simp_all
next
  case False
  define k' where "k' = min k n"
  define r where "r = read_fn b k' (st b)"
  let ?out = "fst (fst r)"
  have c: "length ?out \<le> k'" "?out = take (length ?out) (data (st b))"
    "data (snd r) = drop (length ?out) (data (st b))"
    "0 < k' \<and> data (st b) \<noteq> [] \<longrightarrow> ?out \<noteq> []"
    using sv unfolding serves_def r_def by blast+
  have kk: "(if int k > int n then nat (int n) else k) = k'"
    by (simp add: k'_def min_def)
  have le: "length ?out \<le> n" "length ?out \<le> k" using c(1) by (simp_all add: k'_def)
  have "Read k (limited n b) =
        ((?out, snd (fst r)), limitedReadCloser (int n - int (length ?out)) (Underlying (b\<lparr>st := snd r\<rparr>)))"
    using False unfolding limited_def Read.simps kk
    by (simp add: r_def split_beta Let_def)
  also have "int n - int (length ?out) = int (n - length ?out)" using le(1) by simp
  finally have rd: "Read k (limited n b) =
        ((?out, snd (fst r)), limited (n - length ?out) (b\<lparr>st := snd r\<rparr>))"
    by (simp add: limited_def)
  have ne: "data (st b) \<noteq> []" using lt by auto
  have pr: "?out \<noteq> []" if "0 < k" using c(4) ne that False by (simp add: k'_def)
  show ?thesis
    using rd le c(2,3) False pr by (intro that [of ?out "snd (fst r)" "snd r"]) simp_all
qed

lemma ReadAll_limited:
  assumes sv: "serves b data"
  shows "n < length (data (st b)) \<Longrightarrow>
    \<exists>s'. snd (ReadAll ks (limited n b)) =
            limited (n - length (fst (ReadAll ks (limited n b)))) (b\<lparr>st := s'\<rparr>) \<and>
          length (fst (ReadAll ks (limited n b))) \<le> n \<and>
          min n (npos ks) \<le> length (fst (ReadAll ks (limited n b))) \<and>
          fst (ReadAll ks (limited n b)) =
            take (length (fst (ReadAll ks (limited n b)))) (data (st b)) \<and>
          data s' = drop (length (fst (ReadAll ks (limited n b)))) (data (st b))"
  using sv
proof (induction ks arbitrary: n b)
  case Nil
  have "b\<lparr>st := st b\<rparr> = b" by simp
  then show ?case by (intro exI [of _ "st b"]) (simp add: npos_def)
next
  case (Cons k ks)
  obtain out e s1 where rd:
    "Read k (limited n b) = ((out, e), limited (n - length out) (b\<lparr>st := s1\<rparr>))"
    and le: "length out \<le> n" "length out \<le> k"
    and pre: "out = take (length out) (data (st b))"
    and dat: "data s1 = drop (length out) (data (st b))"
    and pos: "0 < n \<Longrightarrow> 0 < k \<Longrightarrow> out \<noteq> []"
    using Read_limited [OF Cons.prems(2,1), of k] by metis
  let ?b1 = "b\<lparr>st := s1\<rparr>"
  let ?n1 = "n - length out"
  let ?rest = "ReadAll ks (limited ?n1 ?b1)"
  have lt1: "?n1 < length (data (st ?b1))" using Cons.prems(1) le(1) dat by simp
  have sv1: "serves ?b1 data" using Cons.prems(2) by simp
  obtain s2 where st2: "snd ?rest = limited (?n1 - length (fst ?rest)) (?b1\<lparr>st := s2\<rparr>)"
    and le2: "length (fst ?rest) \<le> ?n1"
    and ge2: "min ?n1 (npos ks) \<le> length (fst ?rest)"
    and pre2: "fst ?rest = take (length (fst ?rest)) (data (st ?b1))"
    and dat2: "data s2 = drop (length (fst ?rest)) (data (st ?b1))"
    using Cons.IH [OF lt1 sv1] by blast
  have all: "ReadAll (k # ks) (limited n b) = (out @ fst ?rest, snd ?rest)"
    by (simp add: rd split_beta Let_def)
  have len: "length (fst (ReadAll (k # ks) (limited n b))) = length out + length (fst ?rest)"
    unfolding all by simp
  have a: "snd (ReadAll (k # ks) (limited n b)) =
        limited (n - length (fst (ReadAll (k # ks) (limited n b)))) (b\<lparr>st := s2\<rparr>)"
    unfolding len using st2 unfolding all by simp
  have b': "length (fst (ReadAll (k # ks) (limited n b))) \<le> n"
    unfolding len using le(1) le2 by simp
  have c: "min n (npos (k # ks)) \<le> length (fst (ReadAll (k # ks) (limited n b)))"
  proof (cases "0 < k \<and> 0 < n")
    case True
    then have "1 \<le> length out" using pos by (cases out) simp_all
    moreover have "npos (k # ks) = Suc (npos ks)" using True by (simp add: npos_def)
    ultimately show ?thesis unfolding len using min_step [OF _ le(1) ge2] by simp
  next
    case False
    then have "min n (npos (k # ks)) = min n (npos ks)"
      by (auto simp: npos_def)
    then show ?thesis unfolding len using min_step0 [OF le(1) ge2] by simp
  qed
  have "out @ fst ?rest =
        take (length out) (data (st b)) @ take (length (fst ?rest)) (drop (length out) (data (st b)))"
    using pre pre2 dat by simp
  also have "\<dots> = take (length out + length (fst ?rest)) (data (st b))"
    by (simp only: take_add)
  finally have d: "fst (ReadAll (k # ks) (limited n b)) =
        take (length (fst (ReadAll (k # ks) (limited n b)))) (data (st b))"
    unfolding len unfolding all by simp
  have e': "data s2 = drop (length (fst (ReadAll (k # ks) (limited n b)))) (data (st b))"
    unfolding len using dat2 dat by (simp add: add.commute)
  show ?case using a b' c d e' by blast
qed

lemma serves_trickle: "serves (trickle bs) (\<lambda>s. s)"
  by (auto simp: serves_def trickle_def trickle_read_def take_Suc drop_Suc)

lemma serves_conn: "serves (connStream s0) (\<lambda>s. if closes s > 0 then [] else pending s)"
  by (auto simp: serves_def connStream_def conn_read_def min_def)

lemma CloseN_limited:
  "CloseN k (limitedReadCloser n body) =
   (fst (CloseN k body), limitedReadCloser n (snd (CloseN k body)))"
  by (induction k arbitrary: body) (simp_all add: split_beta Let_def)

lemma CloseN_conn:
  "closes (inner_st (snd (CloseN k (Underlying (connStream s))))) = closes s + k"
  by (induction k arbitrary: s) (simp_all add: split_beta Let_def connStream_def conn_close_def)

lemma CloseN_limitedConn:
  "closes (inner_st (snd (CloseN k (limitedConn n s)))) = closes s + k"
  by (simp add: limitedConn_def CloseN_limited CloseN_conn)

lemma Read_limitedConn_closes:
  "\<exists>n' s'. snd (Read k (limitedConn n s)) = limitedConn n' s' \<and> closes s' = closes s"
  by (simp add: limitedConn_def connStream_def conn_read_def Let_def split_beta)

lemma ReadAll_limitedConn_closes:
  "\<exists>n' s'. snd (ReadAll ks (limitedConn n s)) = limitedConn n' s' \<and> closes s' = closes s"
proof (induction ks arbitrary: n s)
  case Nil
  then show ?case by auto
next
  case (Cons k ks)
  obtain n1 s1 where 1: "snd (Read k (limitedConn n s)) = limitedConn n1 s1"
    and c1: "closes s1 = closes s"
    using Read_limitedConn_closes [of k n s] by blast
  obtain n2 s2 where 2: "snd (ReadAll ks (limitedConn n1 s1)) = limitedConn n2 s2"
    and c2: "closes s2 = closes s1"
    using Cons.IH [of n1 s1] by blast
  have "snd (ReadAll (k # ks) (limitedConn n s)) = limitedConn n2 s2"
    using 1 2 by (simp add: split_beta Let_def)
  with c1 c2 show ?case by auto
qed

section \<open>Claims about the size-limited body\<close>

text \<open>
  Claim C6. A body wrapped with \<open>maxResponseSize = N\<close> over any underlying stream that
  holds more than \<open>N\<close> bytes, whatever the sizes of its reads and whatever errors it
  reports with them. After any sequence of reads the bytes obtained are a prefix of the
  stream of at most \<open>N\<close> bytes, and the wrapper's counter is \<open>N\<close> less their number.
  While fewer than \<open>N\<close> bytes were obtained, a \<^verbatim>\<open>Read\<close> with a non-empty buffer obtains
  more, so \<open>N\<close> reads with non-empty buffers obtain exactly the first \<open>N\<close> bytes. Once
  \<open>N\<close> bytes were obtained every further \<^verbatim>\<open>Read\<close> returns no bytes and \<open>EOF\<close> and
  changes nothing, although the stream still holds bytes.
\<close>

theorem bounded_reader_truncates:
  assumes "serves b data" and "maxResponseSize c = int N" and "N < length (data (st b))"
  shows "length (fst (ReadAll ks (LimitedReader c (Underlying b)))) \<le> N \<and>
         fst (ReadAll ks (LimitedReader c (Underlying b))) =
           take (length (fst (ReadAll ks (LimitedReader c (Underlying b))))) (data (st b)) \<and>
         (\<exists>s'. snd (ReadAll ks (LimitedReader c (Underlying b))) =
                 limitedReadCloser
                   (int N - int (length (fst (ReadAll ks (LimitedReader c (Underlying b))))))
                   (Underlying (b\<lparr>st := s'\<rparr>)) \<and>
               data s' =
                 drop (length (fst (ReadAll ks (LimitedReader c (Underlying b))))) (data (st b))) \<and>
         (N \<le> npos ks \<longrightarrow>
            fst (ReadAll ks (LimitedReader c (Underlying b))) = take N (data (st b))) \<and>
         (length (fst (ReadAll ks (LimitedReader c (Underlying b)))) = N \<longrightarrow>
            (\<forall>k. Read k (snd (ReadAll ks (LimitedReader c (Underlying b)))) =
                   (([], Some EOF), snd (ReadAll ks (LimitedReader c (Underlying b))))) \<and>
            data (inner_st (snd (ReadAll ks (LimitedReader c (Underlying b))))) \<noteq> []) \<and>
         (length (fst (ReadAll ks (LimitedReader c (Underlying b)))) < N \<longrightarrow>
            (\<forall>k. 0 < k \<longrightarrow>
                 fst (fst (Read k (snd (ReadAll ks (LimitedReader c (Underlying b)))))) \<noteq> []))"
proof -
  have start: "LimitedReader c (Underlying b) = limited N b"
    by (simp add: LimitedReader_def limited_def assms(2))
  let ?outs = "fst (ReadAll ks (limited N b))"
  let ?W = "snd (ReadAll ks (limited N b))"
  obtain s' where W: "?W = limited (N - length ?outs) (b\<lparr>st := s'\<rparr>)"
    and le: "length ?outs \<le> N"
    and ge: "min N (npos ks) \<le> length ?outs"
    and pre: "?outs = take (length ?outs) (data (st b))"
    and dat: "data s' = drop (length ?outs) (data (st b))"
    using ReadAll_limited [OF assms(1,3), of ks] by blast
  have cnt: "int (N - length ?outs) = int N - int (length ?outs)" using le by simp
  have acc: "\<exists>s'. ?W = limitedReadCloser (int N - int (length ?outs)) (Underlying (b\<lparr>st := s'\<rparr>)) \<and>
                 data s' = drop (length ?outs) (data (st b))"
    using W dat cnt by (auto simp: limited_def)
  have full: "?outs = take N (data (st b))" if "N \<le> npos ks"
  proof -
    have "length ?outs = N" using that ge le by simp
    with pre show ?thesis by simp
  qed
  have fin: "(\<forall>k. Read k ?W = (([], Some EOF), ?W)) \<and> data (inner_st ?W) \<noteq> []"
    if "length ?outs = N"
  proof -
    have "?W = limitedReadCloser 0 (Underlying (b\<lparr>st := s'\<rparr>))"
      using W that by (simp add: limited_def)
    moreover have "data s' \<noteq> []" using dat that assms(3) by simp
    ultimately show ?thesis by simp
  qed
  have more: "fst (fst (Read k ?W)) \<noteq> []" if "length ?outs < N" "0 < k" for k
  proof -
    let ?b' = "b\<lparr>st := s'\<rparr>"
    have sv: "serves ?b' data" using assms(1) by simp
    have lt: "N - length ?outs < length (data (st ?b'))" using dat assms(3) that(1) by simp
    obtain out e s'' where
      "Read k (limited (N - length ?outs) ?b') =
         ((out, e), limited (N - length ?outs - length out) (?b'\<lparr>st := s''\<rparr>))"
      and "0 < N - length ?outs \<Longrightarrow> 0 < k \<Longrightarrow> out \<noteq> []"
      using Read_limited [OF sv lt, of k] by metis
    then show ?thesis using W that by simp
  qed
  show ?thesis unfolding start using le pre acc full fin more by blast
qed

text \<open>A limit of 4 over five bytes handed out one per \<^verbatim>\<open>Read\<close>: two reads obtain two
  bytes and a third read obtains more; four non-empty reads obtain the first four bytes,
  and the next read is \<open>EOF\<close>. A limit of 2 over a stream that fills its buffers.\<close>

theorem bounded_reader_truncates_witness:
  "fst (ReadAll [3, 3]
          (LimitedReader (New [WithMaxResponseSize 4]) (Underlying (trickle [10, 20, 30, 40, 50])))) =
     [10, 20] \<and>
   fst (fst (Read 3 (snd (ReadAll [3, 3]
          (LimitedReader (New [WithMaxResponseSize 4])
             (Underlying (trickle [10, 20, 30, 40, 50]))))))) \<noteq> [] \<and>
   fst (ReadAll [3, 3, 0, 3, 3]
          (LimitedReader (New [WithMaxResponseSize 4]) (Underlying (trickle [10, 20, 30, 40, 50])))) =
     [10, 20, 30, 40] \<and>
   fst (Read 9 (snd (ReadAll [3, 3, 0, 3, 3]
          (LimitedReader (New [WithMaxResponseSize 4])
             (Underlying (trickle [10, 20, 30, 40, 50])))))) =
     ([], Some EOF) \<and>
   fst (ReadAll [1, 4, 7]
          (LimitedReader (New [WithMaxResponseSize 2]) (connBody [10, 20, 30, 40, 50] EOF))) =
     [10, 20]"
proof -
  let ?b = "trickle [10, 20, 30, 40, 50]"
  let ?c = "New [WithMaxResponseSize 4]"
  have sv: "serves ?b (\<lambda>s. s)" by (rule serves_trickle)
  have mx: "maxResponseSize ?c = int 4" by (simp add: New_def WithMaxResponseSize_def)
  have ln: "4 < length ((\<lambda>s. s) (st ?b))" by (simp add: trickle_def)
  have two: "fst (ReadAll [3, 3] (LimitedReader ?c (Underlying ?b))) = [10, 20]"
    by (simp add: LimitedReader_def New_def WithMaxResponseSize_def trickle_def trickle_read_def
        split_beta Let_def)
  have lt2: "length (fst (ReadAll [3, 3] (LimitedReader ?c (Underlying ?b)))) < 4"
    unfolding two by simp
  have "\<forall>k. 0 < k \<longrightarrow>
          fst (fst (Read k (snd (ReadAll [3, 3] (LimitedReader ?c (Underlying ?b)))))) \<noteq> []"
    using bounded_reader_truncates [OF sv mx ln, of "[3, 3]"] lt2 by blast
  then have more:
    "fst (fst (Read 3 (snd (ReadAll [3, 3] (LimitedReader ?c (Underlying ?b)))))) \<noteq> []"
    by (metis zero_less_numeral)
  have np: "4 \<le> npos [3, 3, 0, 3, 3]" by (simp add: npos_def)
  have "fst (ReadAll [3, 3, 0, 3, 3] (LimitedReader ?c (Underlying ?b))) =
        take 4 ((\<lambda>s. s) (st ?b))"
    using bounded_reader_truncates [OF sv mx ln, of "[3, 3, 0, 3, 3]"] np by blast
  also have "\<dots> = [10, 20, 30, 40]" by (simp add: trickle_def)
  finally have four:
    "fst (ReadAll [3, 3, 0, 3, 3] (LimitedReader ?c (Underlying ?b))) = [10, 20, 30, 40]" .
  have len4: "length (fst (ReadAll [3, 3, 0, 3, 3] (LimitedReader ?c (Underlying ?b)))) = 4"
    unfolding four by simp
  have "\<forall>k. Read k (snd (ReadAll [3, 3, 0, 3, 3] (LimitedReader ?c (Underlying ?b)))) =
            (([], Some EOF), snd (ReadAll [3, 3, 0, 3, 3] (LimitedReader ?c (Underlying ?b))))"
    using bounded_reader_truncates [OF sv mx ln, of "[3, 3, 0, 3, 3]"] len4 by blast
  then have eof:
    "fst (Read 9 (snd (ReadAll [3, 3, 0, 3, 3] (LimitedReader ?c (Underlying ?b))))) =
       ([], Some EOF)"
    by (metis fst_conv)
  let ?s = "\<lparr>pending = [10, 20, 30, 40, 50], atEnd = EOF, closes = 0\<rparr>"
  let ?d = "\<lambda>s. if closes s > 0 then [] else pending s"
  have mx2: "maxResponseSize (New [WithMaxResponseSize 2]) = int 2"
    by (simp add: New_def WithMaxResponseSize_def)
  have ln2: "2 < length (?d (st (connStream ?s)))"
    by (simp add: connStream_def)
  have np2: "2 \<le> npos [1, 4, 7]" by (simp add: npos_def)
  have "fst (ReadAll [1, 4, 7]
          (LimitedReader (New [WithMaxResponseSize 2]) (Underlying (connStream ?s)))) =
        take 2 (?d (st (connStream ?s)))"
    using bounded_reader_truncates [OF serves_conn mx2 ln2, of "[1, 4, 7]"] np2 by blast
  also have "\<dots> = [10, 20]" by (simp add: connStream_def)
  finally have conn: "fst (ReadAll [1, 4, 7]
          (LimitedReader (New [WithMaxResponseSize 2]) (connBody [10, 20, 30, 40, 50] EOF))) =
     [10, 20]"
    unfolding connBody_def .
  show ?thesis
    by (intro conjI) (rule two more four eof conn)+
qed

text \<open>
  Claim C7, as the specification states it: \<^verbatim>\<open>Close\<close> on the wrapper closes the underlying
  resource exactly once, and a second \<^verbatim>\<open>Close\<close> neither errors nor releases the resource
  again. The wrapper keeps no record of having been closed: each call is
  \<^verbatim>\<open>l.C.Close()\<close>. Over a resource that, like a file or a socket, counts its closes and
  reports \<open>ErrClosed\<close> to the second, the second \<^verbatim>\<open>Close\<close> on the wrapper returns that
  error and the resource has been closed twice.
\<close>

theorem second_Close_reaches_resource:
  "fst (CloseN 2 (LimitedReader defaultClient (connBody [104, 105] EOF))) =
     [None, Some ErrClosed] \<and>
   closes (inner_st (snd (CloseN 2 (LimitedReader defaultClient (connBody [104, 105] EOF))))) = 2"
  by (simp add: numeral_2_eq_2 LimitedReader_def connBody_def connStream_def conn_close_def
      split_beta Let_def)

text \<open>
  Claim C7, amended. Every call of \<^verbatim>\<open>Close\<close> on the wrapper calls \<^verbatim>\<open>Close\<close> on the
  underlying resource once and returns its result unchanged; \<open>k\<close> calls on the wrapper are
  \<open>k\<close> calls on the resource with the same results, however much was read before.
  Whether a repeated \<^verbatim>\<open>Close\<close> is harmless is decided by the resource, not by the wrapper.
\<close>

theorem Close_delegates:
  "Close (LimitedReader c body) = (fst (Close body), LimitedReader c (snd (Close body))) \<and>
   CloseN k (LimitedReader c body) = (fst (CloseN k body), LimitedReader c (snd (CloseN k body))) \<and>
   closes (inner_st (snd (CloseN k (snd (ReadAll ks (LimitedReader c (connBody bs e))))))) = k"
proof -
  let ?s = "\<lparr>pending = bs, atEnd = e, closes = 0\<rparr>"
  have start: "LimitedReader c (connBody bs e) = limitedConn (maxResponseSize c) ?s"
    by (simp add: LimitedReader_def connBody_def limitedConn_def)
  obtain n' s' where st: "snd (ReadAll ks (limitedConn (maxResponseSize c) ?s)) = limitedConn n' s'"
    and cl: "closes s' = closes ?s"
    using ReadAll_limitedConn_closes [of ks "maxResponseSize c" ?s] by blast
  have "closes (inner_st (snd (CloseN k (snd (ReadAll ks (LimitedReader c (connBody bs e))))))) = k"
    unfolding start st using cl by (simp add: CloseN_limitedConn)
  then show ?thesis
    by (simp add: LimitedReader_def CloseN_limited split_beta Let_def)
qed

text \<open>
  Claim C9. While bytes are left in the budget (\<open>n > 0\<close>), \<^verbatim>\<open>Read\<close> on the wrapper returns
  what the underlying \<^verbatim>\<open>Read\<close> returns on the buffer cut to the budget: the same bytes,
  so the same count, and the same error. With a buffer within the budget it is the
  underlying \<^verbatim>\<open>Read\<close> on that very buffer.
\<close>

theorem Read_error_passed_through:
  assumes "0 < n"
  shows "fst (Read k (limitedReadCloser n body)) =
           fst (Read (if int k > n then nat n else k) body) \<and>
         (int k \<le> n \<longrightarrow> fst (Read k (limitedReadCloser n body)) = fst (Read k body)) \<and>
         (maxResponseSize c = n \<longrightarrow>
            fst (Read k (LimitedReader c body)) =
              fst (Read (if int k > n then nat n else k) body))"
  using assms by (simp add: LimitedReader_def split_beta Let_def)

text \<open>A body that delivers three bytes together with a connection reset.\<close>

theorem Read_error_passed_through_witness:
  "fst (Read 8 resetBody) = ([1, 2, 3], Some (NetError 104)) \<and>
   fst (Read 8 (limitedReadCloser 10 resetBody)) = ([1, 2, 3], Some (NetError 104)) \<and>
   fst (Read 8 (limitedReadCloser 2 resetBody)) = fst (Read 2 resetBody) \<and>
   fst (Read 8 (LimitedReader (New [WithMaxResponseSize 10]) resetBody)) =
     ([1, 2, 3], Some (NetError 104))"
proof -
  have 1: "(0::int) < 10" by simp
  have 2: "(0::int) < 2" by simp
  have 3: "maxResponseSize (New [WithMaxResponseSize 10]) = 10"
    by (simp add: New_def WithMaxResponseSize_def)
  show ?thesis
    using Read_error_passed_through [OF 1, of 8 resetBody "New [WithMaxResponseSize 10]"]
      Read_error_passed_through [OF 2, of 8 resetBody] 3
    by (simp add: resetBody_def)
qed

end
